theory Spec2Isabelle
  imports Main
begin

section \<open>Data model (env/rules.py)\<close>

text \<open>
  A position is a pair (row, col) of Python integers. A board is the NumPy array
  \<^verbatim>\<open>board[row, col]\<close>; it is modelled by its cell function. The array is square with
  side \<open>board_size\<close> of the configuration (the environment always builds it so), and
  its cells are integers: the arrays hold int8 values in \<open>{-2, ..., 2}\<close>, on which no
  operation of the code wraps.
\<close>

type_synonym pos = "int \<times> int"

type_synonym board = "pos \<Rightarrow> int"

text \<open>The class constants \<^verbatim>\<open>EMPTY, PLAYER1_MAN, PLAYER1_KING, PLAYER2_MAN, PLAYER2_KING\<close>.\<close>

definition EMPTY :: int where "EMPTY = 0"
definition PLAYER1_MAN :: int where "PLAYER1_MAN = 1"
definition PLAYER1_KING :: int where "PLAYER1_KING = 2"
definition PLAYER2_MAN :: int where "PLAYER2_MAN = - 1"
definition PLAYER2_KING :: int where "PLAYER2_KING = - 2"

text \<open>The class \<^verbatim>\<open>Move\<close>; \<open>sequence_length\<close> is computed by the constructor.\<close>

record move =
  from_pos :: pos
  to_pos :: pos
  captures :: "pos list"
  promotion :: bool
  sequence_length :: nat

definition Move :: "pos \<Rightarrow> pos \<Rightarrow> pos list \<Rightarrow> bool \<Rightarrow> move" where
  "Move fp tp caps promo =
     \<lparr> from_pos = fp, to_pos = tp, captures = caps, promotion = promo,
       sequence_length = length caps + (if caps = [] then 1 else 0) \<rparr>"

text \<open>The fields \<^verbatim>\<open>CheckersRules.__init__\<close> reads from the configuration.\<close>

record rules =
  board_size :: int
  capture_forced :: bool
  prefer_longest_capture :: bool
  king_on_last_row :: bool

definition default_rules :: rules where
  "default_rules =
     \<lparr> board_size = 8, capture_forced = True, prefer_longest_capture = True,
       king_on_last_row = True \<rparr>"

section \<open>Move generation\<close>

definition is_valid_square :: "rules \<Rightarrow> int \<Rightarrow> int \<Rightarrow> bool" where
  "is_valid_square R row col =
     (if \<not> (0 \<le> row \<and> row < board_size R \<and> 0 \<le> col \<and> col < board_size R) then False
      else (row + col) mod 2 = 1)"

definition get_move_directions :: "int \<Rightarrow> bool \<Rightarrow> (int \<times> int) list" where
  "get_move_directions piece_value is_king =
     (if is_king then [(- 1, - 1), (- 1, 1), (1, - 1), (1, 1)]
      else if piece_value > 0 then [(1, - 1), (1, 1)]
      else [(- 1, - 1), (- 1, 1)])"

text \<open>
  \<^verbatim>\<open>get_simple_moves\<close>: the loop over the directions appends at most one move per
  direction, in order.
\<close>

definition get_simple_moves :: "rules \<Rightarrow> board \<Rightarrow> int \<Rightarrow> int \<Rightarrow> int \<Rightarrow> move list" where
  "get_simple_moves R b row col player =
     (let piece_value = b (row, col);
          is_king = (\<bar>piece_value\<bar> = 2);
          directions = get_move_directions piece_value is_king
      in concat (map (\<lambda>(dr, dc).
           let new_row = row + dr; new_col = col + dc in
           if \<not> is_valid_square R new_row new_col then []
           else if b (new_row, new_col) = EMPTY then
             [Move (row, col) (new_row, new_col) []
                (if \<not> is_king then
                   (if player = 1 \<and> new_row = board_size R - 1 then True
                    else if player = - 1 \<and> new_row = 0 then True
                    else False)
                 else False)]
           else []) directions))"

text \<open>
  One iteration of the loop of \<^verbatim>\<open>_generate_captures_recursive\<close> up to the recursive
  call: the checks that \<^verbatim>\<open>continue\<close>, the board after the jump and the promotion
  flag. The result is the new board, the landing square, the extended capture list
  and \<^verbatim>\<open>new_promotion\<close>. The loop reassigns \<^verbatim>\<open>directions\<close> after a promotion, which
  does not change the list the running \<^verbatim>\<open>for\<close> iterates over.
\<close>

definition jump_step ::
  "rules \<Rightarrow> board \<Rightarrow> int \<Rightarrow> int \<Rightarrow> int \<Rightarrow> pos list \<Rightarrow> int \<times> int
     \<Rightarrow> (board \<times> int \<times> int \<times> pos list \<times> bool) option" where
  "jump_step R b row col player captures_so_far d =
     (case d of (dr, dc) \<Rightarrow>
      let is_king = (\<bar>b (row, col)\<bar> = 2);
          jump_row = row + dr; jump_col = col + dc in
      if \<not> is_valid_square R jump_row jump_col then None
      else let jumped_piece = b (jump_row, jump_col) in
      if jumped_piece = EMPTY \<or> jumped_piece * player > 0 then None
      else let land_row = jump_row + dr; land_col = jump_col + dc in
      if \<not> is_valid_square R land_row land_col then None
      else if b (land_row, land_col) \<noteq> EMPTY then None
      else
        let new_board = b((land_row, land_col) := b (row, col));
            new_board = new_board((row, col) := EMPTY);
            new_board = new_board((jump_row, jump_col) := EMPTY);
            king_value = (if player = 1 then PLAYER1_KING else PLAYER2_KING);
            promote = (\<not> is_king \<and>
                       ((player = 1 \<and> land_row = board_size R - 1)
                        \<or> (player = - 1 \<and> land_row = 0)));
            new_promotion = promote;
            new_board = (if promote then new_board((land_row, land_col) := king_value)
                         else new_board);
            new_captures = captures_so_far @ [(jump_row, jump_col)]
        in Some (new_board, land_row, land_col, new_captures, new_promotion))"

text \<open>
  The squares the recursion can still jump over: opponent-occupied playable squares
  other than the one the moving piece stands on. Every jump removes one of them.
\<close>

definition jumpable :: "rules \<Rightarrow> board \<Rightarrow> int \<Rightarrow> pos \<Rightarrow> pos set" where
  "jumpable R b player here =
     {q. is_valid_square R (fst q) (snd q) \<and> q \<noteq> here \<and> b q \<noteq> 0 \<and> \<not> b q * player > 0}"

lemma valid_squares_finite: "finite {q. is_valid_square R (fst q) (snd q)}"
proof -
  have "{q. is_valid_square R (fst q) (snd q)}
          \<subseteq> {0 ..< board_size R} \<times> {0 ..< board_size R}"
    by (auto simp: is_valid_square_def split: if_splits)
  then show ?thesis
    by (rule finite_subset) simp
qed

lemma jumpable_finite: "finite (jumpable R b player here)"
  by (rule finite_subset [OF _ valid_squares_finite [of R]]) (auto simp: jumpable_def)

lemma jump_step_decreases:
  assumes "jump_step R b row col player caps d = Some (nb, lr, lc, ncaps, promo)"
    and "d \<in> set (get_move_directions pv k)"
  shows "card (jumpable R nb player (lr, lc)) < card (jumpable R b player (row, col))"
proof -
  obtain dr dc where d: "d = (dr, dc)" by (cases d)
  let ?j = "(row + dr, col + dc)"
  from assms d have v: "is_valid_square R (row + dr) (col + dc)"
    and occ: "b ?j \<noteq> 0" "\<not> b ?j * player > 0"
    and land: "lr = row + dr + dr" "lc = col + dc + dc" "b (lr, lc) = 0"
    by (auto simp: jump_step_def Let_def EMPTY_def split: if_splits)
  from assms(2) d have jh: "?j \<noteq> (row, col)"
    by (auto simp: get_move_directions_def split: if_splits)
  from assms d have nb_other:
    "\<And>q. q \<noteq> (lr, lc) \<Longrightarrow> q \<noteq> (row, col) \<Longrightarrow> q \<noteq> ?j \<Longrightarrow> nb q = b q"
    by (auto simp: jump_step_def Let_def EMPTY_def split: if_splits)
  from assms d have nb_j: "(lr, lc) \<noteq> ?j \<longrightarrow> nb ?j = 0"
    by (auto simp: jump_step_def Let_def EMPTY_def split: if_splits)
  from assms d have nb_here: "(lr, lc) \<noteq> (row, col) \<longrightarrow> nb (row, col) = 0"
    by (auto simp: jump_step_def Let_def EMPTY_def split: if_splits)
  from occ land have jl: "?j \<noteq> (lr, lc)" by auto
  have sub: "jumpable R nb player (lr, lc) \<subseteq> jumpable R b player (row, col) - {?j}"
  proof
    fix q assume q: "q \<in> jumpable R nb player (lr, lc)"
    then have qv: "is_valid_square R (fst q) (snd q)" and ql: "q \<noteq> (lr, lc)"
      and qn: "nb q \<noteq> 0" "\<not> nb q * player > 0"
      by (auto simp: jumpable_def)
    from qn nb_j jl have qj: "q \<noteq> ?j" by auto
    from qn nb_here ql have qh: "q \<noteq> (row, col)" by auto
    from nb_other [OF ql qh qj] qn qv qh qj show "q \<in> jumpable R b player (row, col) - {?j}"
      by (auto simp: jumpable_def)
  qed
  from jh v occ have "?j \<in> jumpable R b player (row, col)"
    by (auto simp: jumpable_def)
  then have "card (jumpable R b player (row, col) - {?j}) < card (jumpable R b player (row, col))"
    by (intro psubset_card_mono jumpable_finite) auto
  moreover have "card (jumpable R nb player (lr, lc)) \<le> card (jumpable R b player (row, col) - {?j})"
    by (intro card_mono sub finite_Diff jumpable_finite)
  ultimately show ?thesis by simp
qed


text \<open>
  \<^verbatim>\<open>_generate_captures_recursive\<close>: for every direction that admits a jump, the
  sequences continuing from the landing square, or the single finished sequence when
  there is none. The returned move starts at the square the recursion currently
  stands on (\<^verbatim>\<open>from_pos=(row, col)\<close>).
\<close>

function generate_captures_recursive ::
  "rules \<Rightarrow> board \<Rightarrow> int \<Rightarrow> int \<Rightarrow> int \<Rightarrow> pos list \<Rightarrow> move list" where
  "generate_captures_recursive R b row col player captures_so_far =
     concat (map (\<lambda>d.
        case jump_step R b row col player captures_so_far d of
          None \<Rightarrow> []
        | Some (new_board, land_row, land_col, new_captures, new_promotion) \<Rightarrow>
            (let additional_moves =
                   generate_captures_recursive R new_board land_row land_col player new_captures
             in if additional_moves \<noteq> [] then additional_moves
                else [Move (row, col) (land_row, land_col) new_captures
                        (new_promotion \<or> (length captures_so_far = 0 \<and> new_promotion))]))
       (get_move_directions (b (row, col)) (\<bar>b (row, col)\<bar> = 2)))"
  by pat_completeness auto
termination
  by (relation "measure (\<lambda>(R, b, row, col, player, caps). card (jumpable R b player (row, col)))")
     (auto dest: jump_step_decreases)

declare generate_captures_recursive.simps [simp del]

definition get_capture_moves :: "rules \<Rightarrow> board \<Rightarrow> int \<Rightarrow> int \<Rightarrow> int \<Rightarrow> move list" where
  "get_capture_moves R b row col player = generate_captures_recursive R b row col player []"

text \<open>
  \<^verbatim>\<open>get_legal_moves\<close>: the scan visits the squares in row-major order and extends the
  two lists \<^verbatim>\<open>all_moves\<close> and \<^verbatim>\<open>capture_moves\<close> for every piece of the player.
\<close>

definition scan_squares :: "rules \<Rightarrow> pos list" where
  "scan_squares R =
     concat (map (\<lambda>row. map (\<lambda>col. (row, col)) [0 .. board_size R - 1]) [0 .. board_size R - 1])"

definition belongs_to :: "int \<Rightarrow> int \<Rightarrow> bool" where
  "belongs_to player piece_value =
     ((player = 1 \<and> piece_value > 0) \<or> (player = - 1 \<and> piece_value < 0))"

definition all_simple_moves :: "rules \<Rightarrow> board \<Rightarrow> int \<Rightarrow> move list" where
  "all_simple_moves R b player =
     concat (map (\<lambda>(row, col).
        if \<not> is_valid_square R row col then []
        else if b (row, col) = 0 then []
        else if belongs_to player (b (row, col)) then get_simple_moves R b row col player
        else []) (scan_squares R))"

definition all_capture_moves :: "rules \<Rightarrow> board \<Rightarrow> int \<Rightarrow> move list" where
  "all_capture_moves R b player =
     concat (map (\<lambda>(row, col).
        if \<not> is_valid_square R row col then []
        else if b (row, col) = 0 then []
        else if belongs_to player (b (row, col)) then get_capture_moves R b row col player
        else []) (scan_squares R))"

definition get_legal_moves :: "rules \<Rightarrow> board \<Rightarrow> int \<Rightarrow> move list" where
  "get_legal_moves R b player =
     (let all_moves = all_simple_moves R b player;
          capture_moves = all_capture_moves R b player
      in if capture_forced R \<and> capture_moves \<noteq> [] then
           (if prefer_longest_capture R then
              (let max_captures = Max (set (map (\<lambda>m. length (captures m)) capture_moves))
               in filter (\<lambda>m. length (captures m) = max_captures) capture_moves)
            else capture_moves)
         else all_moves)"

section \<open>Applying a move\<close>

text \<open>
  \<^verbatim>\<open>apply_move\<close> indexes the array with the positions of the move, which the caller
  supplies. NumPy accepts an index \<open>i\<close> with \<open>-n \<le> i < n\<close>, reads a negative one from
  the end, and raises \<^verbatim>\<open>IndexError\<close> otherwise.
\<close>

datatype error = IndexError

definition array_index :: "rules \<Rightarrow> pos \<Rightarrow> error + pos" where
  "array_index R p =
     (let n = board_size R;
          r = (if fst p < 0 then fst p + n else fst p);
          c = (if snd p < 0 then snd p + n else snd p)
      in if 0 \<le> r \<and> r < n \<and> 0 \<le> c \<and> c < n then Inr (r, c) else Inl IndexError)"

fun clear_captures :: "rules \<Rightarrow> board \<Rightarrow> pos list \<Rightarrow> error + board" where
  "clear_captures R new_board [] = Inr new_board"
| "clear_captures R new_board (cap # caps) =
     (case array_index R cap of
        Inl e \<Rightarrow> Inl e
      | Inr q \<Rightarrow> clear_captures R (new_board(q := EMPTY)) caps)"

definition apply_move :: "rules \<Rightarrow> board \<Rightarrow> move \<Rightarrow> int \<Rightarrow> error + board" where
  "apply_move R b m player =
     (case clear_captures R b (captures m) of
        Inl e \<Rightarrow> Inl e
      | Inr new_board \<Rightarrow>
     (case array_index R (from_pos m) of
        Inl e \<Rightarrow> Inl e
      | Inr f \<Rightarrow>
     (case array_index R (to_pos m) of
        Inl e \<Rightarrow> Inl e
      | Inr t \<Rightarrow>
        let piece_value = new_board f;
            new_board = new_board(t := piece_value);
            new_board = new_board(f := EMPTY)
        in Inr (if promotion m then
                  (if player = 1 then new_board(t := PLAYER1_KING)
                   else new_board(t := PLAYER2_KING))
                else new_board))))"

section \<open>Terminal states\<close>

text \<open>
  \<^verbatim>\<open>is_terminal\<close>: the flag \<^verbatim>\<open>player_has_pieces\<close> is set by a positive cell and
  \<^verbatim>\<open>opponent_has_pieces\<close> by a negative one, whoever \<^verbatim>\<open>current_player\<close> is.
\<close>

definition is_terminal :: "rules \<Rightarrow> board \<Rightarrow> int \<Rightarrow> bool \<times> int option" where
  "is_terminal R b current_player =
     (let opponent = - current_player;
          squares = filter (\<lambda>(row, col). is_valid_square R row col) (scan_squares R);
          player_has_pieces = (\<exists>q \<in> set squares. b q > 0);
          opponent_has_pieces = (\<exists>q \<in> set squares. b q < 0)
      in if \<not> opponent_has_pieces then (True, Some current_player)
         else if \<not> player_has_pieces then (True, Some opponent)
         else if get_legal_moves R b opponent = [] then (True, Some current_player)
         else if get_legal_moves R b current_player = [] then (True, Some opponent)
         else (False, None))"

section \<open>Search agent (agent/heuristic_agent.py)\<close>

text \<open>
  Scores are Python floats. Every finite score the agent computes is an integer far
  below \<open>2^53\<close> (sums of the weights 10.0, 15.0 and 1.0 over the cells, and
  \<open>10000.0 + depth\<close>), so float arithmetic on them is exact and a finite score is
  modelled by an integer; \<^verbatim>\<open>float('inf')\<close> and \<^verbatim>\<open>-float('inf')\<close> are the two extra
  values.
\<close>

datatype score = NegInf | Fin int | PosInf

instantiation score :: linorder
begin

fun less_eq_score :: "score \<Rightarrow> score \<Rightarrow> bool" where
  "less_eq_score NegInf _ = True"
| "less_eq_score _ PosInf = True"
| "less_eq_score (Fin x) (Fin y) = (x \<le> y)"
| "less_eq_score _ _ = False"

definition less_score :: "score \<Rightarrow> score \<Rightarrow> bool" where
  "less_score x y = (x \<le> y \<and> \<not> y \<le> x)"

instance
proof
  fix x y z :: score
  show "(x < y) = (x \<le> y \<and> \<not> y \<le> x)"
    by (simp add: less_score_def)
  show "x \<le> x"
    by (cases x) simp_all
  show "x \<le> y \<Longrightarrow> y \<le> z \<Longrightarrow> x \<le> z"
    by (cases x; cases y; cases z) simp_all
  show "x \<le> y \<Longrightarrow> y \<le> x \<Longrightarrow> x = y"
    by (cases x; cases y) simp_all
  show "x \<le> y \<or> y \<le> x"
    by (cases x; cases y) auto
qed

end

text \<open>
  The agent: its rules, its search depth and its weights. \<^verbatim>\<open>select_action\<close> passes
  \<^verbatim>\<open>self.depth - 1\<close> to \<^verbatim>\<open>minimax\<close>, which counts the depth down to the test
  \<^verbatim>\<open>depth == 0\<close>; the model covers agents of depth at least 1, for which that count is
  a natural number. The field \<^verbatim>\<open>search_player\<close> is written by \<^verbatim>\<open>select_action\<close> and
  never read; it is left out.
\<close>

record agent =
  agent_rules :: rules
  depth :: nat
  W_MAN :: int
  W_KING :: int
  W_CENTER :: int

definition HeuristicAgent :: "rules \<Rightarrow> nat \<Rightarrow> agent" where
  "HeuristicAgent R d =
     \<lparr> agent_rules = R, depth = d, W_MAN = 10, W_KING = 15, W_CENTER = 1 \<rparr>"

text \<open>
  \<^verbatim>\<open>evaluate_board\<close>: one pass over all cells of the array (playable or not), keeping
  the score and the two piece counters.
\<close>

definition eval_cell :: "agent \<Rightarrow> board \<Rightarrow> pos \<Rightarrow> int \<times> nat \<times> nat \<Rightarrow> int \<times> nat \<times> nat" where
  "eval_cell A b q acc =
     (case acc of (score, p1_pieces, p2_pieces) \<Rightarrow>
      let piece = b q in
      if piece = 0 then (score, p1_pieces, p2_pieces)
      else
        let is_king = (\<bar>piece\<bar> = 2);
            value = (if is_king then W_KING A else W_MAN A);
            value = (if fst q \<in> {3, 4} \<and> snd q \<in> {3, 4} then value + W_CENTER A else value)
        in if piece > 0 then (score + value, p1_pieces + 1, p2_pieces)
           else (score - value, p1_pieces, p2_pieces + 1))"

definition evaluate_board :: "agent \<Rightarrow> board \<Rightarrow> int" where
  "evaluate_board A b =
     (case fold (eval_cell A b) (scan_squares (agent_rules A)) (0, 0, 0) of
        (score, p1_pieces, p2_pieces) \<Rightarrow>
          if p1_pieces = 0 \<and> p2_pieces > 0 then - 10000
          else if p2_pieces = 0 \<and> p1_pieces > 0 then 10000
          else score)"

text \<open>
  \<^verbatim>\<open>minimax\<close>. The two loops over the legal moves take the recursive call on the
  successor board as a parameter; each returns as soon as \<^verbatim>\<open>beta <= alpha\<close>
  (\<^verbatim>\<open>break\<close>). An \<^verbatim>\<open>IndexError\<close> of \<^verbatim>\<open>apply_move\<close> propagates.
\<close>

fun max_loop ::
  "rules \<Rightarrow> (board \<Rightarrow> score \<Rightarrow> score \<Rightarrow> error + score) \<Rightarrow> board \<Rightarrow> move list
     \<Rightarrow> score \<Rightarrow> score \<Rightarrow> score \<Rightarrow> error + score" where
  "max_loop R child b [] max_eval alpha beta = Inr max_eval"
| "max_loop R child b (m # ms) max_eval alpha beta =
     (case apply_move R b m 1 of
        Inl e \<Rightarrow> Inl e
      | Inr next_board \<Rightarrow>
     (case child next_board alpha beta of
        Inl e \<Rightarrow> Inl e
      | Inr eval \<Rightarrow>
        let max_eval = max max_eval eval;
            alpha = max alpha eval
        in if beta \<le> alpha then Inr max_eval
           else max_loop R child b ms max_eval alpha beta))"

fun min_loop ::
  "rules \<Rightarrow> (board \<Rightarrow> score \<Rightarrow> score \<Rightarrow> error + score) \<Rightarrow> board \<Rightarrow> move list
     \<Rightarrow> score \<Rightarrow> score \<Rightarrow> score \<Rightarrow> error + score" where
  "min_loop R child b [] min_eval alpha beta = Inr min_eval"
| "min_loop R child b (m # ms) min_eval alpha beta =
     (case apply_move R b m (- 1) of
        Inl e \<Rightarrow> Inl e
      | Inr next_board \<Rightarrow>
     (case child next_board alpha beta of
        Inl e \<Rightarrow> Inl e
      | Inr eval \<Rightarrow>
        let min_eval = min min_eval eval;
            beta = min beta eval
        in if beta \<le> alpha then Inr min_eval
           else min_loop R child b ms min_eval alpha beta))"

definition terminal_score :: "int option \<Rightarrow> nat \<Rightarrow> score" where
  "terminal_score winner d =
     (if winner = Some 1 then Fin (10000 + int d)
      else if winner = Some (- 1) then Fin (- 10000 - int d)
      else Fin 0)"

primrec minimax :: "agent \<Rightarrow> nat \<Rightarrow> board \<Rightarrow> score \<Rightarrow> score \<Rightarrow> int \<Rightarrow> error + score" where
  "minimax A 0 b alpha beta current_player_eval =
     (case is_terminal (agent_rules A) b current_player_eval of
        (True, winner) \<Rightarrow> Inr (terminal_score winner 0)
      | (False, winner) \<Rightarrow> Inr (Fin (evaluate_board A b)))"
| "minimax A (Suc d) b alpha beta current_player_eval =
     (case is_terminal (agent_rules A) b current_player_eval of
        (True, winner) \<Rightarrow> Inr (terminal_score winner (Suc d))
      | (False, winner) \<Rightarrow>
        let legal_moves = get_legal_moves (agent_rules A) b current_player_eval in
        if legal_moves = [] then
          Inr (if current_player_eval = 1 then Fin (- 10000) else Fin 10000)
        else if current_player_eval = 1 then
          max_loop (agent_rules A) (\<lambda>nb a b'. minimax A d nb a b' (- 1)) b legal_moves
            NegInf alpha beta
        else
          min_loop (agent_rules A) (\<lambda>nb a b'. minimax A d nb a b' 1) b legal_moves
            PosInf alpha beta)"

text \<open>
  The action dictionaries of \<^verbatim>\<open>select_action\<close>: the keys \<^verbatim>\<open>from\<close> and \<^verbatim>\<open>to\<close> are read
  with \<^verbatim>\<open>d[...]\<close>, the keys \<^verbatim>\<open>captures\<close> and \<^verbatim>\<open>promotion\<close> with \<^verbatim>\<open>d.get\<close> and a
  default; \<^verbatim>\<open>sequence_length\<close> is carried along and not read.
\<close>

record action_dict =
  d_from :: pos
  d_to :: pos
  d_captures :: "pos list option"
  d_promotion :: "bool option"
  d_sequence_length :: "nat option"

definition to_dict :: "move \<Rightarrow> action_dict" where
  "to_dict m =
     \<lparr> d_from = from_pos m, d_to = to_pos m, d_captures = Some (captures m),
       d_promotion = Some (promotion m), d_sequence_length = Some (sequence_length m) \<rparr>"

definition dict_to_move :: "action_dict \<Rightarrow> move" where
  "dict_to_move d =
     Move (d_from d) (d_to d)
       (case d_captures d of None \<Rightarrow> [] | Some cs \<Rightarrow> cs)
       (case d_promotion d of None \<Rightarrow> False | Some p \<Rightarrow> p)"

text \<open>
  The loop of \<^verbatim>\<open>select_action\<close> over the candidate actions, with the pair
  \<^verbatim>\<open>(best_score, best_action)\<close> it maintains.
\<close>

fun select_loop ::
  "agent \<Rightarrow> board \<Rightarrow> int \<Rightarrow> action_dict list \<Rightarrow> score \<Rightarrow> action_dict
     \<Rightarrow> error + (score \<times> action_dict)" where
  "select_loop A b player [] best_score best_action = Inr (best_score, best_action)"
| "select_loop A b player (action_dict # rest) best_score best_action =
     (case apply_move (agent_rules A) b (dict_to_move action_dict) player of
        Inl e \<Rightarrow> Inl e
      | Inr next_board \<Rightarrow>
     (case minimax A (depth A - 1) next_board NegInf PosInf (player * - 1) of
        Inl e \<Rightarrow> Inl e
      | Inr score \<Rightarrow>
        if player = 1 then
          (if score > best_score then select_loop A b player rest score action_dict
           else select_loop A b player rest best_score best_action)
        else
          (if score < best_score then select_loop A b player rest score action_dict
           else select_loop A b player rest best_score best_action)))"

definition random_choice :: "'a list \<Rightarrow> 'a" where
  "random_choice lst = hd lst"

text \<open>
  \<^verbatim>\<open>select_action\<close> returns \<^verbatim>\<open>None\<close> for an empty list, the only action of a
  one-element list, and otherwise the best action of the loop.
\<close>

definition select_action :: "agent \<Rightarrow> board \<Rightarrow> action_dict list \<Rightarrow> int \<Rightarrow> error + action_dict option" where
  "select_action A b legal_actions player =
     (if legal_actions = [] then Inr None
      else if length legal_actions = 1 then Inr (Some (hd legal_actions))
      else
        (case select_loop A b player legal_actions
                (if player = 1 then NegInf else PosInf) (random_choice legal_actions) of
           Inl e \<Rightarrow> Inl e
         | Inr (best_score, best_action) \<Rightarrow> Inr (Some best_action)))"

section \<open>Example positions\<close>

text \<open>A lone man of player +1 on (0,1).\<close>

definition lone_man_board :: board where
  "lone_man_board = (\<lambda>_. 0)((0, 1) := 1)"

text \<open>
  A man of player +1 on (5,2) that jumps (6,3), lands on the last row (7,4), and jumps
  on over (6,5) to (5,6).
\<close>

definition crowning_jump_board :: board where
  "crowning_jump_board = (\<lambda>_. 0)((5, 2) := 1, (6, 3) := - 1, (6, 5) := - 1)"

text \<open>One man each: +1 on the central square (3,4), -1 on (0,7).\<close>

definition central_man_board :: board where
  "central_man_board = (\<lambda>_. 0)((3, 4) := 1, (0, 7) := - 1)"

section \<open>Terminal states: a player without pieces\<close>

text \<open>
  C1 (fails in the code). A player with zero pieces loses, so \<open>is_terminal\<close> should name
  the player who still has pieces. On the board whose only piece is a man of player +1,
  with player -1 to move, the code answers that player -1 has won: the two flags test
  the sign of the cells, not the side to move.
\<close>

theorem is_terminal_lone_man_black_to_move:
  "is_terminal default_rules lone_man_board (- 1) = (True, Some (- 1))"
  by code_simp

section \<open>Promotion in the middle of a capture sequence\<close>

text \<open>
  C3 (fails in the code). On \<open>crowning_jump_board\<close> the first jump of the man takes it
  to the last row, where the recursion crowns it (the step reports a promotion and
  puts the king value 2 on (7,4)); the king then jumps on. The only legal move
  returned has \<open>promotion = False\<close>, and applying it leaves the destination (5,6)
  empty and the man on (5,2).
\<close>

theorem crowning_jump_not_promoted:
  "map_option (\<lambda>(nb, lr, lc, caps, promo). (lr, lc, caps, promo, nb (7, 4)))
       (jump_step default_rules crowning_jump_board 5 2 1 [] (1, 1))
     = Some (7, 4, [(6, 3)], True, 2)
   \<and> get_legal_moves default_rules crowning_jump_board 1
     = [Move (7, 4) (5, 6) [(6, 3), (6, 5)] False]
   \<and> map_sum id (\<lambda>nb. (nb (5, 6), nb (5, 2)))
       (apply_move default_rules crowning_jump_board
          (Move (7, 4) (5, 6) [(6, 3), (6, 5)] False) 1)
     = Inr (0, 1)"
  by code_simp

section \<open>No candidate moves\<close>

text \<open>
  C7. With an empty list of legal actions \<open>select_action\<close> returns \<open>None\<close>, which is
  no action at all, for every agent, board and player.
\<close>

theorem select_action_empty:
  "select_action A b [] player = Inr None"
  by (simp add: select_action_def)

section \<open>Static evaluation of a board with one man each\<close>

text \<open>The squares of the scan: all cells of the array, each once.\<close>

lemma scan_squares_product: "scan_squares R = List.product [0 .. board_size R - 1] [0 .. board_size R - 1]"
  by (simp add: scan_squares_def product_concat_map)

lemma distinct_scan_squares: "distinct (scan_squares R)"
  by (simp add: scan_squares_product distinct_product)

lemma set_scan_squares:
  "set (scan_squares R) = {q. 0 \<le> fst q \<and> fst q < board_size R \<and> 0 \<le> snd q \<and> snd q < board_size R}"
  by (auto simp: scan_squares_product)

text \<open>The signed value one cell adds to the score of \<open>evaluate_board\<close>.\<close>

definition cell_value :: "agent \<Rightarrow> board \<Rightarrow> pos \<Rightarrow> int" where
  "cell_value A b q =
     (if b q = 0 then 0
      else (if b q > 0 then 1 else - 1) *
           ((if \<bar>b q\<bar> = 2 then W_KING A else W_MAN A)
            + (if fst q \<in> {3, 4} \<and> snd q \<in> {3, 4} then W_CENTER A else 0)))"

lemma fold_eval_cell:
  "fold (eval_cell A b) qs (s, n1, n2) =
     (s + sum_list (map (cell_value A b) qs),
      n1 + length (filter (\<lambda>q. b q > 0) qs),
      n2 + length (filter (\<lambda>q. b q < 0) qs))"
  by (induction qs arbitrary: s n1 n2) (auto simp: eval_cell_def cell_value_def Let_def)

lemma sum_list_two_cells:
  assumes "distinct qs" "q1 \<in> set qs" "q2 \<in> set qs" "q1 \<noteq> q2"
    and "\<forall>q \<in> set qs. q \<noteq> q1 \<and> q \<noteq> q2 \<longrightarrow> f q = (0::int)"
  shows "sum_list (map f qs) = f q1 + f q2"
proof -
  have "sum_list (map f qs) = sum f (set qs)"
    using assms(1) by (simp add: sum_list_distinct_conv_sum_set)
  also have "\<dots> = sum f {q1, q2}"
    using assms by (intro sum.mono_neutral_right) auto
  also have "\<dots> = f q1 + f q2"
    using assms(4) by simp
  finally show ?thesis .
qed

lemma length_filter_one:
  assumes "distinct qs" "q1 \<in> set qs" "P q1" "\<forall>q \<in> set qs. q \<noteq> q1 \<longrightarrow> \<not> P q"
  shows "length (filter P qs) = 1"
proof -
  have "length (filter P qs) = card {q \<in> set qs. P q}"
    using assms(1) by (simp add: distinct_length_filter Collect_conj_eq Int_commute)
  also have "{q \<in> set qs. P q} = {q1}"
    using assms by auto
  finally show ?thesis by simp
qed

text \<open>
  C8 (as stated it fails). With one man each, \<open>evaluate_board\<close> is not always 0: a man
  on one of the four central cells (row and column in \<open>{3, 4}\<close>) earns the centre bonus.
  With the +1 man on (3,4) and the -1 man on (0,7) the score is 1.
\<close>

theorem evaluate_board_central_man_counterexample:
  "length (filter (\<lambda>q. central_man_board q \<noteq> 0) (scan_squares default_rules)) = 2
   \<and> central_man_board (3, 4) = 1 \<and> central_man_board (0, 7) = - 1
   \<and> evaluate_board (HeuristicAgent default_rules 3) central_man_board = 1"
  by code_simp

text \<open>
  C8 (amended). On a board whose only pieces are one man of player +1 (on \<open>q1\<close>) and one
  man of player -1 (on \<open>q2\<close>), \<open>evaluate_board\<close> returns the centre bonus of \<open>q1\<close> minus
  the centre bonus of \<open>q2\<close>; the material cancels. So the score is 0 exactly when the
  two men are both on, or both off, the central cells (for a non-zero bonus).
\<close>

theorem evaluate_board_one_man_each:
  assumes "q1 \<in> set (scan_squares (agent_rules A))" "q2 \<in> set (scan_squares (agent_rules A))"
    and "b q1 = 1" "b q2 = - 1"
    and "\<forall>q \<in> set (scan_squares (agent_rules A)). q \<noteq> q1 \<and> q \<noteq> q2 \<longrightarrow> b q = 0"
  shows "evaluate_board A b =
           (if fst q1 \<in> {3, 4} \<and> snd q1 \<in> {3, 4} then W_CENTER A else 0)
         - (if fst q2 \<in> {3, 4} \<and> snd q2 \<in> {3, 4} then W_CENTER A else 0)"
proof -
  let ?qs = "scan_squares (agent_rules A)"
  from assms(3,4) have ne: "q1 \<noteq> q2" by auto
  have zero: "\<forall>q \<in> set ?qs. q \<noteq> q1 \<and> q \<noteq> q2 \<longrightarrow> cell_value A b q = 0"
    using assms(5) by (simp add: cell_value_def)
  have s: "sum_list (map (cell_value A b) ?qs) = cell_value A b q1 + cell_value A b q2"
    by (rule sum_list_two_cells [OF distinct_scan_squares assms(1,2) ne zero])
  have n1: "length (filter (\<lambda>q. b q > 0) ?qs) = 1"
    using assms by (intro length_filter_one [OF distinct_scan_squares, of q1]) auto
  have n2: "length (filter (\<lambda>q. b q < 0) ?qs) = 1"
    using assms by (intro length_filter_one [OF distinct_scan_squares, of q2]) auto
  show ?thesis
    using assms(3,4) by (simp add: evaluate_board_def fold_eval_cell s n1 n2 cell_value_def)
qed

theorem evaluate_board_one_man_each_witness:
  "evaluate_board (HeuristicAgent default_rules 3) ((\<lambda>_. 0)((0, 1) := 1, (7, 0) := - 1)) = 0"
  using evaluate_board_one_man_each [of "(0, 1)" "HeuristicAgent default_rules 3" "(7, 0)"
      "(\<lambda>_. 0)((0, 1) := 1, (7, 0) := - 1)"]
  by (simp add: set_scan_squares HeuristicAgent_def default_rules_def)


section \<open>Properties of the capture recursion\<close>

text \<open>What a successful jump step returns.\<close>

lemma jump_stepD:
  assumes "jump_step R b row col player caps (dr, dc) = Some (nb, lr, lc, ncaps, promo)"
  shows "is_valid_square R (row + dr) (col + dc)"
    and "b (row + dr, col + dc) \<noteq> 0"
    and "\<not> b (row + dr, col + dc) * player > 0"
    and "lr = row + dr + dr" and "lc = col + dc + dc"
    and "is_valid_square R lr lc"
    and "b (lr, lc) = 0"
    and "ncaps = caps @ [(row + dr, col + dc)]"
    and "promo = (\<bar>b (row, col)\<bar> \<noteq> 2 \<and>
                  ((player = 1 \<and> lr = board_size R - 1) \<or> (player = - 1 \<and> lr = 0)))"
    and "nb (lr, lc) = (if promo then (if player = 1 then 2 else - 2) else b (row, col))"
    and "\<And>q. q \<noteq> (lr, lc) \<Longrightarrow>
           nb q = (if q = (row, col) \<or> q = (row + dr, col + dc) then 0 else b q)"
proof -
  let ?j = "(row + dr, col + dc)"
  let ?l = "(row + dr + dr, col + dc + dc)"
  let ?promote = "\<bar>b (row, col)\<bar> \<noteq> 2 \<and>
      ((player = 1 \<and> row + dr + dr = board_size R - 1) \<or> (player = - 1 \<and> row + dr + dr = 0))"
  let ?b1 = "b(?l := b (row, col), (row, col) := 0, ?j := 0)"
  have c1: "is_valid_square R (row + dr) (col + dc)"
    using assms by (cases "is_valid_square R (row + dr) (col + dc)") (simp_all add: jump_step_def)
  have c2: "b ?j \<noteq> 0 \<and> \<not> b ?j * player > 0"
    using assms c1
    by (cases "b ?j = 0 \<or> b ?j * player > 0") (simp_all add: jump_step_def EMPTY_def)
  have c3: "is_valid_square R (row + dr + dr) (col + dc + dc)"
    using assms c1 c2
    by (cases "is_valid_square R (row + dr + dr) (col + dc + dc)")
       (simp_all add: jump_step_def EMPTY_def)
  have c4: "b ?l = 0"
    using assms c1 c2 c3 by (cases "b ?l = 0") (simp_all add: jump_step_def EMPTY_def)
  have js: "jump_step R b row col player caps (dr, dc) =
      Some ((if ?promote then ?b1(?l := (if player = 1 then 2 else - 2)) else ?b1),
       row + dr + dr, col + dc + dc, caps @ [?j], ?promote)"
    using c1 c2 c3 c4
    by (simp add: jump_step_def EMPTY_def PLAYER1_KING_def PLAYER2_KING_def Let_def
             del: fun_upd_apply)
  from assms [unfolded js]
  have res: "((if ?promote then ?b1(?l := (if player = 1 then 2 else - 2)) else ?b1),
       row + dr + dr, col + dc + dc, caps @ [?j], ?promote) = (nb, lr, lc, ncaps, promo)"
    by (simp only: option.inject)
  have nb: "nb = (if ?promote then ?b1(?l := (if player = 1 then 2 else - 2)) else ?b1)"
    and lr: "lr = row + dr + dr" and lc: "lc = col + dc + dc"
    and nc: "ncaps = caps @ [?j]" and pr: "promo = ?promote"
    using res [unfolded prod.inject] by blast+
  from c2 c4 have jl: "?j \<noteq> ?l" by auto
  show "is_valid_square R (row + dr) (col + dc)" by (rule c1)
  show "b ?j \<noteq> 0" using c2 by simp
  show "\<not> b ?j * player > 0" using c2 by simp
  show "lr = row + dr + dr" by (rule lr)
  show "lc = col + dc + dc" by (rule lc)
  show "is_valid_square R lr lc" using c3 lr lc by simp
  show "b (lr, lc) = 0" using c4 lr lc by simp
  show "ncaps = caps @ [?j]" by (rule nc)
  show "promo = (\<bar>b (row, col)\<bar> \<noteq> 2 \<and>
                  ((player = 1 \<and> lr = board_size R - 1) \<or> (player = - 1 \<and> lr = 0)))"
    using pr lr by simp
  show "nb (lr, lc) = (if promo then (if player = 1 then 2 else - 2) else b (row, col))"
  proof (cases ?promote)
    case True
    with nb pr lr lc show ?thesis by simp
  next
    case False
    have np: "\<not> promo" using False pr by blast
    have "nb = ?b1" unfolding nb using False by (rule if_not_P)
    then have "nb ?l = ?b1 ?l" by (rule fun_cong)
    also have "?b1 ?l = b (row, col)" using jl c4 by (auto simp: fun_upd_def)
    finally have "nb (lr, lc) = b (row, col)" unfolding lr lc .
    then show ?thesis using np by simp
  qed
  show "\<And>q. q \<noteq> (lr, lc) \<Longrightarrow>
           nb q = (if q = (row, col) \<or> q = ?j then 0 else b q)"
  proof -
    fix q :: pos assume "q \<noteq> (lr, lc)"
    then have ql: "q \<noteq> ?l" using lr lc by simp
    have "nb q = ?b1 q"
    proof (cases ?promote)
      case True
      have "nb = ?b1(?l := (if player = 1 then 2 else - 2))"
        unfolding nb using True by (rule if_P)
      then have "nb q = (?b1(?l := (if player = 1 then 2 else - 2))) q" by (rule fun_cong)
      also have "\<dots> = ?b1 q" using ql by (rule fun_upd_other)
      finally show ?thesis .
    next
      case False
      have "nb = ?b1" unfolding nb using False by (rule if_not_P)
      then show ?thesis by (rule fun_cong)
    qed
    also have "\<dots> = (if q = (row, col) \<or> q = ?j then 0 else b q)"
      using ql by (simp add: fun_upd_def)
    finally show "nb q = (if q = (row, col) \<or> q = ?j then 0 else b q)" .
  qed
qed

lemma generate_captures_member:
  assumes "m \<in> set (generate_captures_recursive R b row col player caps)"
  obtains dr dc nb lr lc ncaps promo where
    "(dr, dc) \<in> set (get_move_directions (b (row, col)) (\<bar>b (row, col)\<bar> = 2))"
    "jump_step R b row col player caps (dr, dc) = Some (nb, lr, lc, ncaps, promo)"
    "(generate_captures_recursive R nb lr lc player ncaps \<noteq> []
        \<and> m \<in> set (generate_captures_recursive R nb lr lc player ncaps))
     \<or> (generate_captures_recursive R nb lr lc player ncaps = []
        \<and> m = Move (row, col) (lr, lc) ncaps promo)"
proof -
  have "set (generate_captures_recursive R b row col player caps) =
      (\<Union>d \<in> set (get_move_directions (b (row, col)) (\<bar>b (row, col)\<bar> = 2)).
         set (case jump_step R b row col player caps d of
          None \<Rightarrow> []
        | Some (new_board, land_row, land_col, new_captures, new_promotion) \<Rightarrow>
            (let additional_moves =
                   generate_captures_recursive R new_board land_row land_col player new_captures
             in if additional_moves \<noteq> [] then additional_moves
                else [Move (row, col) (land_row, land_col) new_captures
                        (new_promotion \<or> (length caps = 0 \<and> new_promotion))])))"
    by (simp add: generate_captures_recursive.simps [of R b row col player caps])
  with assms obtain d where d: "d \<in> set (get_move_directions (b (row, col)) (\<bar>b (row, col)\<bar> = 2))"
    and m: "m \<in> set (case jump_step R b row col player caps d of
          None \<Rightarrow> []
        | Some (new_board, land_row, land_col, new_captures, new_promotion) \<Rightarrow>
            (let additional_moves =
                   generate_captures_recursive R new_board land_row land_col player new_captures
             in if additional_moves \<noteq> [] then additional_moves
                else [Move (row, col) (land_row, land_col) new_captures
                        (new_promotion \<or> (length caps = 0 \<and> new_promotion))]))"
    by blast
  obtain dr dc where dd: "d = (dr, dc)" by (cases d)
  from m obtain nb lr lc ncaps promo where
    js: "jump_step R b row col player caps d = Some (nb, lr, lc, ncaps, promo)"
    by (cases "jump_step R b row col player caps d") auto
  have pp: "(promo \<or> (caps = [] \<and> promo)) = promo" by blast
  from m js have "(generate_captures_recursive R nb lr lc player ncaps \<noteq> []
        \<and> m \<in> set (generate_captures_recursive R nb lr lc player ncaps))
     \<or> (generate_captures_recursive R nb lr lc player ncaps = []
        \<and> m = Move (row, col) (lr, lc) ncaps promo)"
    by (auto simp: Let_def pp split: if_splits)
  with d js dd that show thesis by blast
qed

lemma generate_captures_nonempty_iff:
  "generate_captures_recursive R b row col player caps \<noteq> [] \<longleftrightarrow>
     (\<exists>d \<in> set (get_move_directions (b (row, col)) (\<bar>b (row, col)\<bar> = 2)).
        jump_step R b row col player caps d \<noteq> None)"
  by (simp add: generate_captures_recursive.simps [of R b row col player caps] Let_def
        split: option.splits)

lemma generate_captures_extend:
  "m \<in> set (generate_captures_recursive R b row col player caps)
     \<Longrightarrow> (\<exists>ex. captures m = caps @ ex \<and> ex \<noteq> [])
          \<and> sequence_length m = length (captures m)"
proof (induction R b row col player caps rule: generate_captures_recursive.induct)
  case (1 R b row col player caps)
  from "1.prems" show ?case
  proof (rule generate_captures_member)
    fix dr dc nb lr lc ncaps promo
    assume d: "(dr, dc) \<in> set (get_move_directions (b (row, col)) (\<bar>b (row, col)\<bar> = 2))"
      and js: "jump_step R b row col player caps (dr, dc) = Some (nb, lr, lc, ncaps, promo)"
      and m: "(generate_captures_recursive R nb lr lc player ncaps \<noteq> []
        \<and> m \<in> set (generate_captures_recursive R nb lr lc player ncaps))
     \<or> (generate_captures_recursive R nb lr lc player ncaps = []
        \<and> m = Move (row, col) (lr, lc) ncaps promo)"
    have nc: "ncaps = caps @ [(row + dr, col + dc)]"
      by (rule jump_stepD(8) [OF js])
    from m show ?thesis
    proof (elim disjE conjE)
      assume "m \<in> set (generate_captures_recursive R nb lr lc player ncaps)"
      from "1.IH" [OF d js refl refl refl refl this]
      obtain ex where "captures m = ncaps @ ex" "sequence_length m = length (captures m)"
        by blast
      with nc show ?thesis by simp
    next
      assume "m = Move (row, col) (lr, lc) ncaps promo"
      with nc show ?thesis by (simp add: Move_def)
    qed
  qed
qed

text \<open>A playable square of the board, as a position.\<close>

definition on_board :: "rules \<Rightarrow> pos \<Rightarrow> bool" where
  "on_board R q = is_valid_square R (fst q) (snd q)"

lemma generate_captures_on_board:
  "is_valid_square R row col \<Longrightarrow> \<forall>q \<in> set caps. on_board R q
     \<Longrightarrow> m \<in> set (generate_captures_recursive R b row col player caps)
     \<Longrightarrow> on_board R (from_pos m) \<and> on_board R (to_pos m) \<and> (\<forall>q \<in> set (captures m). on_board R q)"
proof (induction R b row col player caps rule: generate_captures_recursive.induct)
  case (1 R b row col player caps)
  from "1.prems"(3) show ?case
  proof (rule generate_captures_member)
    fix dr dc nb lr lc ncaps promo
    assume d: "(dr, dc) \<in> set (get_move_directions (b (row, col)) (\<bar>b (row, col)\<bar> = 2))"
      and js: "jump_step R b row col player caps (dr, dc) = Some (nb, lr, lc, ncaps, promo)"
      and m: "(generate_captures_recursive R nb lr lc player ncaps \<noteq> []
        \<and> m \<in> set (generate_captures_recursive R nb lr lc player ncaps))
     \<or> (generate_captures_recursive R nb lr lc player ncaps = []
        \<and> m = Move (row, col) (lr, lc) ncaps promo)"
    note D = jump_stepD [OF js]
    have nc: "\<forall>q \<in> set ncaps. on_board R q"
      using D(1,8) "1.prems"(2) by (auto simp: on_board_def)
    from m show ?thesis
    proof (elim disjE conjE)
      assume "m \<in> set (generate_captures_recursive R nb lr lc player ncaps)"
      from "1.IH" [OF d js refl refl refl refl D(6) nc this] show ?thesis .
    next
      assume "m = Move (row, col) (lr, lc) ncaps promo"
      with nc D(6) "1.prems"(1) show ?thesis by (simp add: Move_def on_board_def)
    qed
  qed
qed

lemma generate_captures_opponent:
  "b (row, col) * player > 0
     \<Longrightarrow> m \<in> set (generate_captures_recursive R b row col player caps)
     \<Longrightarrow> \<exists>ex. captures m = caps @ ex \<and> distinct ex
            \<and> (\<forall>q \<in> set ex. q \<noteq> (row, col) \<and> b q \<noteq> 0 \<and> \<not> b q * player > 0)"
proof (induction R b row col player caps rule: generate_captures_recursive.induct)
  case (1 R b row col player caps)
  from "1.prems"(2) show ?case
  proof (rule generate_captures_member)
    fix dr dc nb lr lc ncaps promo
    assume d: "(dr, dc) \<in> set (get_move_directions (b (row, col)) (\<bar>b (row, col)\<bar> = 2))"
      and js: "jump_step R b row col player caps (dr, dc) = Some (nb, lr, lc, ncaps, promo)"
      and m: "(generate_captures_recursive R nb lr lc player ncaps \<noteq> []
        \<and> m \<in> set (generate_captures_recursive R nb lr lc player ncaps))
     \<or> (generate_captures_recursive R nb lr lc player ncaps = []
        \<and> m = Move (row, col) (lr, lc) ncaps promo)"
    note D = jump_stepD [OF js]
    let ?j = "(row + dr, col + dc)"
    from "1.prems"(1) D(2,3) have jh: "?j \<noteq> (row, col)" by auto
    from D(2,7) have jl: "?j \<noteq> (lr, lc)" by auto
    from "1.prems"(1) D(7) have hl: "(row, col) \<noteq> (lr, lc)" by auto
    have own: "nb (lr, lc) * player > 0"
      using "1.prems"(1) D(9) by (simp add: D(10))
    from m show ?thesis
    proof (elim disjE conjE)
      assume "m \<in> set (generate_captures_recursive R nb lr lc player ncaps)"
      from "1.IH" [OF d js refl refl refl refl own this]
      obtain ex where ex: "captures m = ncaps @ ex" "distinct ex"
        "\<forall>q \<in> set ex. q \<noteq> (lr, lc) \<and> nb q \<noteq> 0 \<and> \<not> nb q * player > 0" by blast
      have "\<forall>q \<in> set ex. q \<noteq> ?j \<and> q \<noteq> (row, col) \<and> b q = nb q"
      proof
        fix q assume q: "q \<in> set ex"
        with ex(3) have ql: "q \<noteq> (lr, lc)" and qn: "nb q \<noteq> 0" by auto
        from D(11) [OF ql] qn show "q \<noteq> ?j \<and> q \<noteq> (row, col) \<and> b q = nb q"
          by (auto split: if_splits)
      qed
      with ex D(2,3,8) jh have "captures m = caps @ (?j # ex) \<and> distinct (?j # ex)
            \<and> (\<forall>q \<in> set (?j # ex). q \<noteq> (row, col) \<and> b q \<noteq> 0 \<and> \<not> b q * player > 0)"
        by auto
      then show ?thesis by blast
    next
      assume "m = Move (row, col) (lr, lc) ncaps promo"
      with D(2,3,8) jh have "captures m = caps @ [?j] \<and> distinct [?j]
            \<and> (\<forall>q \<in> set [?j]. q \<noteq> (row, col) \<and> b q \<noteq> 0 \<and> \<not> b q * player > 0)"
        by (simp add: Move_def)
      then show ?thesis by blast
    qed
  qed
qed


section \<open>The moves returned by \<open>get_legal_moves\<close>\<close>

lemma belongs_to_own: "belongs_to player v \<Longrightarrow> v * player > 0 \<and> (player = 1 \<or> player = - 1)"
  by (auto simp: belongs_to_def)

lemma set_all_capture_moves:
  "set (all_capture_moves R b player) =
     (\<Union>(row, col) \<in> {(row, col). is_valid_square R row col \<and> belongs_to player (b (row, col))}.
        set (get_capture_moves R b row col player))"
proof -
  have v: "\<And>row col. is_valid_square R row col \<Longrightarrow> (row, col) \<in> set (scan_squares R)"
    by (auto simp: set_scan_squares is_valid_square_def split: if_splits)
  have z: "\<And>v. belongs_to player v \<Longrightarrow> v \<noteq> 0"
    by (auto simp: belongs_to_def)
  show ?thesis
    unfolding all_capture_moves_def
    by (auto simp: z split: if_splits dest: v) (use v z in force)
qed

lemma set_all_simple_moves:
  "set (all_simple_moves R b player) =
     (\<Union>(row, col) \<in> {(row, col). is_valid_square R row col \<and> belongs_to player (b (row, col))}.
        set (get_simple_moves R b row col player))"
proof -
  have v: "\<And>row col. is_valid_square R row col \<Longrightarrow> (row, col) \<in> set (scan_squares R)"
    by (auto simp: set_scan_squares is_valid_square_def split: if_splits)
  have z: "\<And>v. belongs_to player v \<Longrightarrow> v \<noteq> 0"
    by (auto simp: belongs_to_def)
  show ?thesis
    unfolding all_simple_moves_def
    by (auto simp: z split: if_splits dest: v) (use v z in force)
qed

lemma get_legal_moves_subset:
  "set (get_legal_moves R b player)
     \<subseteq> set (all_simple_moves R b player) \<union> set (all_capture_moves R b player)"
  by (auto simp: get_legal_moves_def Let_def)

lemma get_legal_moves_forced:
  "capture_forced R \<Longrightarrow> all_capture_moves R b player \<noteq> []
     \<Longrightarrow> set (get_legal_moves R b player) \<subseteq> set (all_capture_moves R b player)"
  by (auto simp: get_legal_moves_def Let_def)

lemma get_legal_moves_longest:
  assumes "capture_forced R" "prefer_longest_capture R" "all_capture_moves R b player \<noteq> []"
    and "m \<in> set (get_legal_moves R b player)"
  shows "m \<in> set (all_capture_moves R b player)"
    and "\<forall>m' \<in> set (all_capture_moves R b player). length (captures m') \<le> length (captures m)"
proof -
  let ?cs = "all_capture_moves R b player"
  let ?mx = "Max (set (map (\<lambda>m. length (captures m)) ?cs))"
  from assms have m: "m \<in> set ?cs" "length (captures m) = ?mx"
    by (auto simp: get_legal_moves_def Let_def)
  show "m \<in> set ?cs" by (rule m(1))
  show "\<forall>m' \<in> set ?cs. length (captures m') \<le> length (captures m)"
  proof
    fix m' assume "m' \<in> set ?cs"
    then have "length (captures m') \<in> set (map (\<lambda>m. length (captures m)) ?cs)" by auto
    then have "length (captures m') \<le> ?mx" by (intro Max_ge) auto
    with m(2) show "length (captures m') \<le> length (captures m)" by simp
  qed
qed

lemma capture_moves_shape:
  assumes "m \<in> set (all_capture_moves R b player)"
  shows "captures m \<noteq> []" "sequence_length m = length (captures m)"
    "distinct (captures m)"
    "\<forall>q \<in> set (captures m). b q \<noteq> 0 \<and> sgn (b q) = - player"
proof -
  from assms obtain row col where v: "is_valid_square R row col"
    and own: "belongs_to player (b (row, col))"
    and m: "m \<in> set (generate_captures_recursive R b row col player [])"
    by (auto simp: set_all_capture_moves get_capture_moves_def)
  from generate_captures_extend [OF m]
  show "captures m \<noteq> []" "sequence_length m = length (captures m)" by auto
  from belongs_to_own [OF own] have pos: "b (row, col) * player > 0"
    and pl: "player = 1 \<or> player = - 1" by auto
  from generate_captures_opponent [OF pos m]
  have d: "distinct (captures m)"
    and o: "\<forall>q \<in> set (captures m). b q \<noteq> 0 \<and> \<not> b q * player > 0" by auto
  show "distinct (captures m)" by (rule d)
  show "\<forall>q \<in> set (captures m). b q \<noteq> 0 \<and> sgn (b q) = - player"
  proof
    fix q assume "q \<in> set (captures m)"
    with o have "b q \<noteq> 0" "\<not> b q * player > 0" by auto
    with pl show "b q \<noteq> 0 \<and> sgn (b q) = - player"
      by (auto simp: sgn_if)
  qed
qed

lemma simple_moves_no_captures:
  "m \<in> set (all_simple_moves R b player) \<Longrightarrow> captures m = []"
  by (auto simp: set_all_simple_moves get_simple_moves_def Let_def Move_def split: if_splits)

text \<open>
  The player has a capture sequence: one of the player's pieces, on a playable square,
  has a non-empty list of capture moves.
\<close>

definition has_capture :: "rules \<Rightarrow> board \<Rightarrow> int \<Rightarrow> bool" where
  "has_capture R b player =
     (\<exists>row col. is_valid_square R row col \<and> belongs_to player (b (row, col))
                \<and> get_capture_moves R b row col player \<noteq> [])"

lemma has_capture_iff: "has_capture R b player \<longleftrightarrow> all_capture_moves R b player \<noteq> []"
proof -
  have "all_capture_moves R b player \<noteq> [] \<longleftrightarrow> set (all_capture_moves R b player) \<noteq> {}"
    by simp
  also have "\<dots> \<longleftrightarrow> has_capture R b player"
    unfolding set_all_capture_moves has_capture_def
    by (auto simp: set_empty [symmetric] simp del: set_empty)
  finally show ?thesis by simp
qed

text \<open>
  A position with a double jump, a single jump and simple moves for player +1: the man
  on (2,1) jumps (3,2) and (5,4), the man on (2,5) jumps (3,6).
\<close>

definition two_captures_board :: board where
  "two_captures_board =
     (\<lambda>_. 0)((2, 1) := 1, (2, 5) := 1, (3, 2) := - 1, (5, 4) := - 1, (3, 6) := - 1)"

lemma two_captures_board_has_capture: "has_capture default_rules two_captures_board 1"
proof -
  have "is_valid_square default_rules 2 5
        \<and> belongs_to 1 (two_captures_board (2, 5))
        \<and> get_capture_moves default_rules two_captures_board 2 5 1 \<noteq> []"
    by code_simp
  then show ?thesis unfolding has_capture_def by blast
qed

lemma two_captures_board_legal:
  "get_legal_moves default_rules two_captures_board 1
     = [Move (4, 3) (6, 5) [(3, 2), (5, 4)] False]"
  by code_simp

lemma two_captures_board_single:
  "get_capture_moves default_rules two_captures_board 2 5 1
     = [Move (2, 5) (4, 7) [(3, 6)] False]"
  by code_simp

subsection \<open>Forced capture\<close>

text \<open>
  C4. If \<open>capture_forced\<close> is set and the player has a capture sequence, every move
  returned by \<open>get_legal_moves\<close> has a non-empty capture list.
\<close>

theorem forced_capture_only_captures:
  assumes "capture_forced R" and "has_capture R b player"
  shows "\<forall>m \<in> set (get_legal_moves R b player). captures m \<noteq> []"
proof
  fix m assume "m \<in> set (get_legal_moves R b player)"
  with get_legal_moves_forced [OF assms(1)] assms(2)
  have "m \<in> set (all_capture_moves R b player)"
    by (auto simp: has_capture_iff)
  then show "captures m \<noteq> []" by (rule capture_moves_shape(1))
qed


theorem forced_capture_only_captures_witness:
  "capture_forced default_rules \<and> has_capture default_rules two_captures_board 1
   \<and> Move (4, 3) (6, 5) [(3, 2), (5, 4)] False
       \<in> set (get_legal_moves default_rules two_captures_board 1)
   \<and> captures (Move (4, 3) (6, 5) [(3, 2), (5, 4)] False) \<noteq> []"
proof -
  have h1: "capture_forced default_rules" by (simp add: default_rules_def)
  have h2: "has_capture default_rules two_captures_board 1"
    by (rule two_captures_board_has_capture)
  have m: "Move (4, 3) (6, 5) [(3, 2), (5, 4)] False
             \<in> set (get_legal_moves default_rules two_captures_board 1)"
    by (simp add: two_captures_board_legal)
  from forced_capture_only_captures [OF h1 h2] m
  have "captures (Move (4, 3) (6, 5) [(3, 2), (5, 4)] False) \<noteq> []" by blast
  with h1 h2 m show ?thesis by blast
qed

subsection \<open>Longest capture\<close>

text \<open>
  C5. If \<open>capture_forced\<close> and \<open>prefer_longest_capture\<close> are set and the player has a
  capture sequence, every move returned by \<open>get_legal_moves\<close> is a capture sequence of
  one of the player's pieces, its \<open>sequence_length\<close> is the length of its capture list,
  and no capture sequence of any of the player's pieces captures more; so all returned
  moves have the same, maximal, \<open>sequence_length\<close>.
\<close>

theorem longest_capture_dominance:
  assumes "capture_forced R" and "prefer_longest_capture R" and "has_capture R b player"
  shows "\<forall>m \<in> set (get_legal_moves R b player).
           captures m \<noteq> [] \<and> sequence_length m = length (captures m)
           \<and> (\<exists>row col. is_valid_square R row col \<and> belongs_to player (b (row, col))
                  \<and> m \<in> set (get_capture_moves R b row col player))
           \<and> (\<forall>row col m'. is_valid_square R row col \<and> belongs_to player (b (row, col))
                  \<and> m' \<in> set (get_capture_moves R b row col player)
                  \<longrightarrow> length (captures m') \<le> sequence_length m)"
proof
  fix m assume m: "m \<in> set (get_legal_moves R b player)"
  from assms(3) have ne: "all_capture_moves R b player \<noteq> []" by (simp add: has_capture_iff)
  note L = get_legal_moves_longest [OF assms(1,2) ne m]
  note S = capture_moves_shape(1,2) [OF L(1)]
  from L(1) have ex: "\<exists>row col. is_valid_square R row col \<and> belongs_to player (b (row, col))
                  \<and> m \<in> set (get_capture_moves R b row col player)"
    by (auto simp: set_all_capture_moves)
  have mx: "\<forall>row col m'. is_valid_square R row col \<and> belongs_to player (b (row, col))
                  \<and> m' \<in> set (get_capture_moves R b row col player)
                  \<longrightarrow> length (captures m') \<le> sequence_length m"
  proof (intro allI impI)
    fix row col m'
    assume "is_valid_square R row col \<and> belongs_to player (b (row, col))
                  \<and> m' \<in> set (get_capture_moves R b row col player)"
    then have "m' \<in> set (all_capture_moves R b player)"
      by (auto simp: set_all_capture_moves)
    with L(2) S(2) show "length (captures m') \<le> sequence_length m" by simp
  qed
  from S ex mx show "captures m \<noteq> [] \<and> sequence_length m = length (captures m)
           \<and> (\<exists>row col. is_valid_square R row col \<and> belongs_to player (b (row, col))
                  \<and> m \<in> set (get_capture_moves R b row col player))
           \<and> (\<forall>row col m'. is_valid_square R row col \<and> belongs_to player (b (row, col))
                  \<and> m' \<in> set (get_capture_moves R b row col player)
                  \<longrightarrow> length (captures m') \<le> sequence_length m)"
    by blast
qed


theorem longest_capture_dominance_witness:
  "capture_forced default_rules \<and> prefer_longest_capture default_rules
   \<and> has_capture default_rules two_captures_board 1
   \<and> Move (4, 3) (6, 5) [(3, 2), (5, 4)] False
       \<in> set (get_legal_moves default_rules two_captures_board 1)
   \<and> sequence_length (Move (4, 3) (6, 5) [(3, 2), (5, 4)] False)
       = length (captures (Move (4, 3) (6, 5) [(3, 2), (5, 4)] False))
   \<and> Move (2, 5) (4, 7) [(3, 6)] False
       \<in> set (get_capture_moves default_rules two_captures_board 2 5 1)
   \<and> length (captures (Move (2, 5) (4, 7) [(3, 6)] False))
       \<le> sequence_length (Move (4, 3) (6, 5) [(3, 2), (5, 4)] False)"
proof -
  have h1: "capture_forced default_rules" by (simp add: default_rules_def)
  have h2: "prefer_longest_capture default_rules" by (simp add: default_rules_def)
  have h3: "has_capture default_rules two_captures_board 1"
    by (rule two_captures_board_has_capture)
  have m: "Move (4, 3) (6, 5) [(3, 2), (5, 4)] False
             \<in> set (get_legal_moves default_rules two_captures_board 1)"
    by (simp add: two_captures_board_legal)
  have v: "is_valid_square default_rules 2 5 \<and> belongs_to 1 (two_captures_board (2, 5))"
    by code_simp
  have m': "Move (2, 5) (4, 7) [(3, 6)] False
             \<in> set (get_capture_moves default_rules two_captures_board 2 5 1)"
    by (simp add: two_captures_board_single)
  from longest_capture_dominance [OF h1 h2 h3] m
  have "sequence_length (Move (4, 3) (6, 5) [(3, 2), (5, 4)] False)
          = length (captures (Move (4, 3) (6, 5) [(3, 2), (5, 4)] False))"
    and "\<forall>row col m'. is_valid_square default_rules row col
            \<and> belongs_to 1 (two_captures_board (row, col))
            \<and> m' \<in> set (get_capture_moves default_rules two_captures_board row col 1)
            \<longrightarrow> length (captures m')
                  \<le> sequence_length (Move (4, 3) (6, 5) [(3, 2), (5, 4)] False)"
    by blast+
  with v m' h1 h2 h3 m show ?thesis by blast
qed

subsection \<open>Captured squares\<close>

text \<open>
  C10. Every move returned by \<open>get_legal_moves\<close> has pairwise distinct capture
  positions, and each of them holds a piece of the opponent on the input board: a
  non-zero cell whose sign is \<open>- player\<close>.
\<close>

theorem legal_moves_captures_distinct_opponent:
  assumes "m \<in> set (get_legal_moves R b player)"
  shows "distinct (captures m) \<and> (\<forall>q \<in> set (captures m). b q \<noteq> 0 \<and> sgn (b q) = - player)"
proof -
  from assms get_legal_moves_subset
  have "m \<in> set (all_simple_moves R b player) \<or> m \<in> set (all_capture_moves R b player)"
    by blast
  then show ?thesis
  proof
    assume "m \<in> set (all_simple_moves R b player)"
    then have "captures m = []" by (rule simple_moves_no_captures)
    then show ?thesis by simp
  next
    assume "m \<in> set (all_capture_moves R b player)"
    from capture_moves_shape(3,4) [OF this] show ?thesis by simp
  qed
qed


theorem legal_moves_captures_distinct_opponent_witness:
  "Move (4, 3) (6, 5) [(3, 2), (5, 4)] False
       \<in> set (get_legal_moves default_rules two_captures_board 1)
   \<and> distinct (captures (Move (4, 3) (6, 5) [(3, 2), (5, 4)] False))
   \<and> two_captures_board (3, 2) \<noteq> 0 \<and> sgn (two_captures_board (3, 2)) = - 1
   \<and> two_captures_board (5, 4) \<noteq> 0 \<and> sgn (two_captures_board (5, 4)) = - 1"
proof -
  have m: "Move (4, 3) (6, 5) [(3, 2), (5, 4)] False
             \<in> set (get_legal_moves default_rules two_captures_board 1)"
    by (simp add: two_captures_board_legal)
  from legal_moves_captures_distinct_opponent [OF m] m show ?thesis
    by (simp add: Move_def)
qed

section \<open>Conservation of pieces by \<open>apply_move\<close>\<close>

text \<open>The number of pieces on the board: the non-zero cells of the array.\<close>

definition piece_count :: "rules \<Rightarrow> board \<Rightarrow> nat" where
  "piece_count R b = length (filter (\<lambda>q. b q \<noteq> 0) (scan_squares R))"

text \<open>A position inside the array, with non-negative indices.\<close>

definition in_array :: "rules \<Rightarrow> pos \<Rightarrow> bool" where
  "in_array R q = (0 \<le> fst q \<and> fst q < board_size R \<and> 0 \<le> snd q \<and> snd q < board_size R)"

lemma in_array_scan: "in_array R q \<longleftrightarrow> q \<in> set (scan_squares R)"
  by (simp add: in_array_def set_scan_squares)

lemma array_index_in: "in_array R q \<Longrightarrow> array_index R q = Inr q"
  by (cases q) (simp add: array_index_def in_array_def Let_def)

lemma clear_captures_in:
  "\<forall>q \<in> set caps. in_array R q
     \<Longrightarrow> clear_captures R b caps = Inr (\<lambda>q. if q \<in> set caps then 0 else b q)"
proof (induction caps arbitrary: b)
  case Nil
  show ?case by simp
next
  case (Cons c caps)
  from Cons.prems have c: "array_index R c = Inr c" and rest: "\<forall>q \<in> set caps. in_array R q"
    by (simp_all add: array_index_in)
  have "clear_captures R b (c # caps) = clear_captures R (b(c := 0)) caps"
    by (simp add: c EMPTY_def)
  also have "\<dots> = Inr (\<lambda>q. if q \<in> set caps then 0 else (b(c := 0)) q)"
    by (rule Cons.IH [OF rest])
  also have "(\<lambda>q. if q \<in> set caps then 0 else (b(c := 0)) q)
             = (\<lambda>q. if q \<in> set (c # caps) then 0 else b q)"
    by (rule ext) simp
  finally show ?case .
qed

text \<open>The king value \<open>apply_move\<close> writes for a promotion.\<close>

definition king_of :: "int \<Rightarrow> int" where
  "king_of player = (if player = 1 then PLAYER1_KING else PLAYER2_KING)"

lemma apply_move_in:
  assumes "in_array R (from_pos m)" "in_array R (to_pos m)" "\<forall>q \<in> set (captures m). in_array R q"
  shows "apply_move R b m player =
           Inr (\<lambda>q. if q = to_pos m \<and> promotion m then king_of player
                    else if q = from_pos m then 0
                    else if q = to_pos m then (if from_pos m \<in> set (captures m) then 0 else b (from_pos m))
                    else if q \<in> set (captures m) then 0
                    else b q)"
proof -
  let ?c = "\<lambda>q. if q \<in> set (captures m) then 0 else b q"
  let ?f = "from_pos m" let ?t = "to_pos m"
  have "apply_move R b m player =
      Inr (if promotion m then
                  (if player = 1 then (?c(?t := ?c ?f, ?f := 0))(?t := PLAYER1_KING)
                   else (?c(?t := ?c ?f, ?f := 0))(?t := PLAYER2_KING))
                else ?c(?t := ?c ?f, ?f := 0))"
    unfolding apply_move_def
    by (simp only: clear_captures_in [OF assms(3)] array_index_in [OF assms(1)]
          array_index_in [OF assms(2)] sum.case Let_def EMPTY_def)
  also have "(if promotion m then
                  (if player = 1 then (?c(?t := ?c ?f, ?f := 0))(?t := PLAYER1_KING)
                   else (?c(?t := ?c ?f, ?f := 0))(?t := PLAYER2_KING))
                else ?c(?t := ?c ?f, ?f := 0))
      = (\<lambda>q. if q = to_pos m \<and> promotion m then king_of player
                    else if q = from_pos m then 0
                    else if q = to_pos m then (if from_pos m \<in> set (captures m) then 0 else b (from_pos m))
                    else if q \<in> set (captures m) then 0
                    else b q)"
    by (rule ext) (simp add: king_of_def)
  finally show ?thesis .
qed

lemma piece_count_card: "piece_count R b = card {q. in_array R q \<and> b q \<noteq> 0}"
proof -
  have "piece_count R b = card {q \<in> set (scan_squares R). b q \<noteq> 0}"
    unfolding piece_count_def
    by (simp add: distinct_length_filter [OF distinct_scan_squares] Collect_conj_eq Int_commute)
  also have "{q \<in> set (scan_squares R). b q \<noteq> 0} = {q. in_array R q \<and> b q \<noteq> 0}"
    by (simp add: in_array_scan)
  finally show ?thesis .
qed

lemma finite_pieces: "finite {q. in_array R q \<and> b q \<noteq> 0}"
  by (rule finite_subset [of _ "set (scan_squares R)"]) (auto simp: in_array_scan)

text \<open>
  A man of player +1 on (3,0) that jumps (4,1) and then (6,3), landing on the last row.
\<close>

definition final_crowning_board :: board where
  "final_crowning_board = (\<lambda>_. 0)((3, 0) := 1, (4, 1) := - 1, (6, 3) := - 1)"

text \<open>
  A move that fits the board. Let the squares of the move lie inside the array, the
  \<open>from\<close> square hold a piece, the \<open>to\<close> square be empty, and the captured squares be
  pairwise distinct, occupied and different from the \<open>from\<close> square. Then \<open>apply_move\<close>
  returns a board on which the captured squares and the \<open>from\<close> square are empty, the
  \<open>to\<close> square holds the moved piece (the player's king value if the move promotes),
  every other cell is unchanged, and the number of pieces has gone down by the number
  of captures.
\<close>

lemma apply_move_conservation:
  assumes "in_array R (from_pos m)" and "in_array R (to_pos m)"
    and "\<forall>q \<in> set (captures m). in_array R q"
    and "b (from_pos m) \<noteq> 0" and "b (to_pos m) = 0"
    and "distinct (captures m)"
    and "\<forall>q \<in> set (captures m). b q \<noteq> 0 \<and> q \<noteq> from_pos m"
  shows "\<exists>nb. apply_move R b m player = Inr nb
           \<and> nb (to_pos m) = (if promotion m then king_of player else b (from_pos m))
           \<and> nb (from_pos m) = 0
           \<and> (\<forall>q \<in> set (captures m). nb q = 0)
           \<and> (\<forall>q. q \<noteq> from_pos m \<and> q \<noteq> to_pos m \<and> q \<notin> set (captures m) \<longrightarrow> nb q = b q)
           \<and> piece_count R nb + length (captures m) = piece_count R b"
proof -
  let ?f = "from_pos m" let ?t = "to_pos m" let ?C = "set (captures m)"
  define nb where "nb = (\<lambda>q. if q = ?t \<and> promotion m then king_of player
                    else if q = ?f then 0
                    else if q = ?t then (if ?f \<in> ?C then 0 else b ?f)
                    else if q \<in> ?C then 0
                    else b q)"
  have ap: "apply_move R b m player = Inr nb"
    unfolding nb_def by (rule apply_move_in [OF assms(1-3)])
  from assms(4,5) have ft: "?f \<noteq> ?t" by auto
  from assms(7) have fC: "?f \<notin> ?C" by auto
  from assms(5,7) have tC: "?t \<notin> ?C" by auto
  have k: "king_of player \<noteq> 0" by (simp add: king_of_def PLAYER1_KING_def PLAYER2_KING_def)
  have n1: "nb ?t = (if promotion m then king_of player else b ?f)"
    using ft fC by (simp add: nb_def)
  have n2: "nb ?f = 0" using ft by (simp add: nb_def)
  have n3: "\<forall>q \<in> ?C. nb q = 0" using tC by (auto simp: nb_def)
  have n4: "\<forall>q. q \<noteq> ?f \<and> q \<noteq> ?t \<and> q \<notin> ?C \<longrightarrow> nb q = b q" by (simp add: nb_def)
  let ?P = "{q. in_array R q \<and> b q \<noteq> 0}"
  let ?Q = "{q. in_array R q \<and> nb q \<noteq> 0}"
  have nt: "nb ?t \<noteq> 0" using n1 k assms(4) by simp
  have Q: "?Q = insert ?t (?P - insert ?f ?C)"
  proof (rule set_eqI)
    fix q
    show "q \<in> ?Q \<longleftrightarrow> q \<in> insert ?t (?P - insert ?f ?C)"
    proof (cases "q = ?t")
      case True
      with nt assms(2) show ?thesis by simp
    next
      case qt: False
      show ?thesis
      proof (cases "q = ?f \<or> q \<in> ?C")
        case True
        with n2 n3 qt show ?thesis by auto
      next
        case False
        with qt n4 have "nb q = b q" by blast
        with qt False show ?thesis by auto
      qed
    qed
  qed
  have sub: "insert ?f ?C \<subseteq> ?P" using assms(1,3,4,7) by auto
  have tP: "?t \<notin> ?P - insert ?f ?C" using assms(5) by simp
  have "card ?Q = Suc (card (?P - insert ?f ?C))"
    unfolding Q using tP finite_pieces [of R b] by (simp add: card_insert_disjoint)
  also have "card (?P - insert ?f ?C) = card ?P - card (insert ?f ?C)"
    using sub by (intro card_Diff_subset) auto
  also have "card (insert ?f ?C) = Suc (length (captures m))"
    using fC assms(6) by (simp add: distinct_card)
  finally have "card ?Q = Suc (card ?P - Suc (length (captures m)))" .
  moreover have "Suc (length (captures m)) \<le> card ?P"
  proof -
    have "card (insert ?f ?C) \<le> card ?P"
      by (rule card_mono [OF finite_pieces sub])
    with fC assms(6) show ?thesis by (simp add: distinct_card)
  qed
  ultimately have cnt: "piece_count R nb + length (captures m) = piece_count R b"
    by (simp add: piece_count_card)
  from ap n1 n2 n3 n4 cnt show ?thesis by blast
qed


lemma apply_move_conservation_single_jump:
  "piece_count default_rules two_captures_board = 5
   \<and> (\<exists>nb. apply_move default_rules two_captures_board (Move (2, 5) (4, 7) [(3, 6)] False) 1
            = Inr nb
          \<and> nb (4, 7) = 1 \<and> nb (2, 5) = 0 \<and> nb (3, 6) = 0
          \<and> piece_count default_rules nb + 1 = 5)"
proof -
  let ?m = "Move (2, 5) (4, 7) [(3, 6)] False"
  have c: "piece_count default_rules two_captures_board = 5" by code_simp
  have h: "in_array default_rules (from_pos ?m)" "in_array default_rules (to_pos ?m)"
    "\<forall>q \<in> set (captures ?m). in_array default_rules q"
    "two_captures_board (from_pos ?m) \<noteq> 0" "two_captures_board (to_pos ?m) = 0"
    "distinct (captures ?m)"
    "\<forall>q \<in> set (captures ?m). two_captures_board q \<noteq> 0 \<and> q \<noteq> from_pos ?m"
    by (simp_all add: Move_def in_array_def default_rules_def two_captures_board_def)
  from apply_move_conservation [OF h, of 1]
  obtain nb where nb: "apply_move default_rules two_captures_board ?m 1 = Inr nb"
    "nb (to_pos ?m) = (if promotion ?m then king_of 1 else two_captures_board (from_pos ?m))"
    "nb (from_pos ?m) = 0" "\<forall>q \<in> set (captures ?m). nb q = 0"
    "piece_count default_rules nb + length (captures ?m)
       = piece_count default_rules two_captures_board"
    by blast
  have "nb (4, 7) = 1" using nb(2) by (simp add: Move_def two_captures_board_def)
  moreover have "nb (2, 5) = 0" using nb(3) by (simp add: Move_def)
  moreover have "nb (3, 6) = 0" using nb(4) by (simp add: Move_def)
  moreover have "piece_count default_rules nb + 1 = 5" using nb(5) c by (simp add: Move_def)
  ultimately show ?thesis using c nb(1) by blast
qed

section \<open>Legal moves apply without error\<close>

lemma on_board_in_array: "on_board R q \<Longrightarrow> in_array R q"
  by (auto simp: on_board_def in_array_def is_valid_square_def split: if_splits)

lemma get_simple_moves_shape:
  "m \<in> set (get_simple_moves R b row col player)
     \<Longrightarrow> from_pos m = (row, col) \<and> is_valid_square R (fst (to_pos m)) (snd (to_pos m))
         \<and> b (to_pos m) = 0 \<and> captures m = []"
  by (auto simp: get_simple_moves_def Let_def Move_def EMPTY_def split: if_splits)

lemma simple_moves_on_board:
  assumes "m \<in> set (all_simple_moves R b player)"
  shows "on_board R (from_pos m) \<and> on_board R (to_pos m) \<and> captures m = []"
proof -
  from assms obtain row col where v: "is_valid_square R row col"
    and m: "m \<in> set (get_simple_moves R b row col player)"
    by (auto simp: set_all_simple_moves)
  from get_simple_moves_shape [OF m] v show ?thesis by (simp add: on_board_def)
qed

lemma capture_moves_on_board:
  assumes "m \<in> set (all_capture_moves R b player)"
  shows "on_board R (from_pos m) \<and> on_board R (to_pos m) \<and> (\<forall>q \<in> set (captures m). on_board R q)"
proof -
  from assms obtain row col where v: "is_valid_square R row col"
    and m: "m \<in> set (generate_captures_recursive R b row col player [])"
    by (auto simp: set_all_capture_moves get_capture_moves_def)
  show ?thesis
    by (rule generate_captures_on_board [OF v _ m]) simp
qed

lemma legal_moves_apply:
  assumes "m \<in> set (get_legal_moves R b player)"
  shows "\<exists>nb. apply_move R b m q = Inr nb"
proof -
  from assms get_legal_moves_subset
  have "m \<in> set (all_simple_moves R b player) \<or> m \<in> set (all_capture_moves R b player)"
    by blast
  then have "on_board R (from_pos m) \<and> on_board R (to_pos m)
             \<and> (\<forall>q \<in> set (captures m). on_board R q)"
  proof
    assume "m \<in> set (all_simple_moves R b player)"
    from simple_moves_on_board [OF this] show ?thesis by simp
  next
    assume "m \<in> set (all_capture_moves R b player)"
    then show ?thesis by (rule capture_moves_on_board)
  qed
  then have "in_array R (from_pos m) \<and> in_array R (to_pos m)
             \<and> (\<forall>q \<in> set (captures m). in_array R q)"
    by (blast intro: on_board_in_array)
  then show ?thesis
    using apply_move_in [of R m b q] by blast
qed

section \<open>Conservation for the moves of \<open>get_legal_moves\<close>\<close>

text \<open>
  Every simple move and every single jump returned by \<open>get_legal_moves\<close> fits the board
  it was generated for, so applying it moves one piece and removes the captured one.
\<close>

lemma legal_short_moves_fit:
  assumes "m \<in> set (get_legal_moves R b player)" and "length (captures m) \<le> 1"
  shows "in_array R (from_pos m) \<and> in_array R (to_pos m)
         \<and> (\<forall>q \<in> set (captures m). in_array R q)
         \<and> b (from_pos m) \<noteq> 0 \<and> b (to_pos m) = 0 \<and> distinct (captures m)
         \<and> (\<forall>q \<in> set (captures m). b q \<noteq> 0 \<and> q \<noteq> from_pos m)"
proof -
  from assms(1) get_legal_moves_subset
  have "m \<in> set (all_simple_moves R b player) \<or> m \<in> set (all_capture_moves R b player)"
    by blast
  then show ?thesis
  proof
    assume "m \<in> set (all_simple_moves R b player)"
    then obtain row col where v: "is_valid_square R row col"
      and own: "belongs_to player (b (row, col))"
      and m: "m \<in> set (get_simple_moves R b row col player)"
      by (auto simp: set_all_simple_moves)
    note S = get_simple_moves_shape [OF m]
    from own have nz: "b (row, col) \<noteq> 0" by (auto simp: belongs_to_def)
    from v have "in_array R (row, col)"
      by (rule on_board_in_array [unfolded on_board_def, of R "(row, col)", simplified])
    moreover from S have "in_array R (to_pos m)"
      by (intro on_board_in_array) (simp add: on_board_def)
    ultimately show ?thesis using S nz by simp
  next
    assume "m \<in> set (all_capture_moves R b player)"
    then obtain row col where v: "is_valid_square R row col"
      and own: "belongs_to player (b (row, col))"
      and m: "m \<in> set (generate_captures_recursive R b row col player [])"
      by (auto simp: set_all_capture_moves get_capture_moves_def)
    from belongs_to_own [OF own] have pos: "b (row, col) * player > 0" by simp
    from m show ?thesis
    proof (rule generate_captures_member)
      fix dr dc nb lr lc ncaps promo
      assume js: "jump_step R b row col player [] (dr, dc) = Some (nb, lr, lc, ncaps, promo)"
        and alt: "(generate_captures_recursive R nb lr lc player ncaps \<noteq> []
            \<and> m \<in> set (generate_captures_recursive R nb lr lc player ncaps))
          \<or> (generate_captures_recursive R nb lr lc player ncaps = []
            \<and> m = Move (row, col) (lr, lc) ncaps promo)"
      note D = jump_stepD [OF js]
      from D(8) have nc: "ncaps = [(row + dr, col + dc)]" by simp
      from alt show ?thesis
      proof (elim disjE conjE)
        assume "m \<in> set (generate_captures_recursive R nb lr lc player ncaps)"
        from generate_captures_extend [OF this]
        obtain ex where "captures m = ncaps @ ex" "ex \<noteq> []" by blast
        with nc have "2 \<le> length (captures m)" by (cases ex) simp_all
        with assms(2) show ?thesis by simp
      next
        assume mm: "m = Move (row, col) (lr, lc) ncaps promo"
        from pos D(3) have jh: "(row + dr, col + dc) \<noteq> (row, col)" by auto
        from pos have nz: "b (row, col) \<noteq> 0" by auto
        have a1: "in_array R (row, col)"
          using v by (intro on_board_in_array) (simp add: on_board_def)
        have a2: "in_array R (lr, lc)"
          using D(6) by (intro on_board_in_array) (simp add: on_board_def)
        have a3: "in_array R (row + dr, col + dc)"
          using D(1) by (intro on_board_in_array) (simp add: on_board_def)
        from a1 a2 a3 nz D(2,7) jh show ?thesis
          by (simp add: mm nc Move_def)
      qed
    qed
  qed
qed

lemma legal_short_moves_conserve:
  assumes "m \<in> set (get_legal_moves R b player)" and "length (captures m) \<le> 1"
  shows "\<exists>nb. apply_move R b m player = Inr nb
           \<and> nb (to_pos m) = (if promotion m then king_of player else b (from_pos m))
           \<and> nb (from_pos m) = 0
           \<and> (\<forall>q \<in> set (captures m). nb q = 0)
           \<and> (\<forall>q. q \<noteq> from_pos m \<and> q \<noteq> to_pos m \<and> q \<notin> set (captures m) \<longrightarrow> nb q = b q)
           \<and> piece_count R nb + length (captures m) = piece_count R b"
proof -
  note F = legal_short_moves_fit [OF assms]
  show ?thesis
    by (rule apply_move_conservation) (use F in blast)+
qed

text \<open>
  C2 (fails in the code). \<open>apply_move\<close> should remove the captured pieces and relocate
  one piece, leaving the piece count lower by the number of captures, in particular
  for the multi-jump moves of \<open>get_legal_moves\<close>. The capture recursion returns the
  moves of its recursive call unchanged, so a multi-jump carries as \<open>from_pos\<close> the
  square before its last jump. On \<open>final_crowning_board\<close> the one legal move of player
  +1 is the double jump of the man on (3,0); it is returned with \<open>from_pos = (5,2)\<close>
  and \<open>promotion = True\<close>. Applying it removes the two captured men, leaves the man on
  (3,0) where it was and writes a king on (7,4): of 3 pieces 2 remain, not
  \<open>3 - 2 = 1\<close>, and no piece has moved.
\<close>

theorem apply_move_multi_jump_not_conserved:
  "get_legal_moves default_rules final_crowning_board 1
     = [Move (5, 2) (7, 4) [(4, 1), (6, 3)] True]
   \<and> piece_count default_rules final_crowning_board = 3
   \<and> map_sum id (\<lambda>nb. (piece_count default_rules nb, nb (3, 0), nb (5, 2), nb (7, 4)))
       (apply_move default_rules final_crowning_board
          (Move (5, 2) (7, 4) [(4, 1), (6, 3)] True) 1)
     = Inr (2, 1, 0, 2)"
  by code_simp

section \<open>Alpha-beta pruning against exhaustive minimax\<close>

text \<open>
  Minimax without pruning, after the specification of \<open>minimax\<close>: the terminal scores,
  the static evaluation at depth 0, the score of a side without moves, and otherwise
  the maximum (player +1 to move) or minimum over all successor boards.
\<close>

fun max_all ::
  "rules \<Rightarrow> (board \<Rightarrow> error + score) \<Rightarrow> board \<Rightarrow> move list \<Rightarrow> score \<Rightarrow> error + score" where
  "max_all R child b [] best = Inr best"
| "max_all R child b (m # ms) best =
     (case apply_move R b m 1 of
        Inl e \<Rightarrow> Inl e
      | Inr next_board \<Rightarrow>
     (case child next_board of
        Inl e \<Rightarrow> Inl e
      | Inr eval \<Rightarrow> max_all R child b ms (max best eval)))"

fun min_all ::
  "rules \<Rightarrow> (board \<Rightarrow> error + score) \<Rightarrow> board \<Rightarrow> move list \<Rightarrow> score \<Rightarrow> error + score" where
  "min_all R child b [] best = Inr best"
| "min_all R child b (m # ms) best =
     (case apply_move R b m (- 1) of
        Inl e \<Rightarrow> Inl e
      | Inr next_board \<Rightarrow>
     (case child next_board of
        Inl e \<Rightarrow> Inl e
      | Inr eval \<Rightarrow> min_all R child b ms (min best eval)))"

primrec minimax_exhaustive :: "agent \<Rightarrow> nat \<Rightarrow> board \<Rightarrow> int \<Rightarrow> error + score" where
  "minimax_exhaustive A 0 b player_to_move =
     (case is_terminal (agent_rules A) b player_to_move of
        (True, winner) \<Rightarrow> Inr (terminal_score winner 0)
      | (False, winner) \<Rightarrow> Inr (Fin (evaluate_board A b)))"
| "minimax_exhaustive A (Suc d) b player_to_move =
     (case is_terminal (agent_rules A) b player_to_move of
        (True, winner) \<Rightarrow> Inr (terminal_score winner (Suc d))
      | (False, winner) \<Rightarrow>
        let legal_moves = get_legal_moves (agent_rules A) b player_to_move in
        if legal_moves = [] then
          Inr (if player_to_move = 1 then Fin (- 10000) else Fin 10000)
        else if player_to_move = 1 then
          max_all (agent_rules A) (\<lambda>nb. minimax_exhaustive A d nb (- 1)) b legal_moves NegInf
        else
          min_all (agent_rules A) (\<lambda>nb. minimax_exhaustive A d nb 1) b legal_moves PosInf)"

text \<open>
  The result \<open>v\<close> of a search with window \<open>(alpha, beta)\<close> agrees with the exact value
  \<open>x\<close>: it is exact inside the window, and a bound of \<open>x\<close> on the side where it falls
  outside.
\<close>

definition agrees :: "score \<Rightarrow> score \<Rightarrow> score \<Rightarrow> score \<Rightarrow> bool" where
  "agrees alpha beta v x =
     ((v \<le> alpha \<longrightarrow> x \<le> v) \<and> (beta \<le> v \<longrightarrow> v \<le> x) \<and> (alpha < v \<and> v < beta \<longrightarrow> v = x))"

lemma NegInf_least [simp]: "NegInf \<le> (x::score)"
  by simp

lemma PosInf_greatest [simp]: "(x::score) \<le> PosInf"
  by (cases x) simp_all

lemma agrees_full: "agrees NegInf PosInf v x \<Longrightarrow> v = x"
proof -
  assume a: "agrees NegInf PosInf v x"
  show "v = x"
  proof (cases v)
    case NegInf
    with a have "x \<le> NegInf" by (simp add: agrees_def)
    with NegInf show ?thesis by (cases x) simp_all
  next
    case (Fin i)
    then have "NegInf < v" "v < PosInf" by (simp_all add: less_score_def)
    with a show ?thesis by (simp add: agrees_def)
  next
    case PosInf
    with a have "PosInf \<le> x" by (simp add: agrees_def)
    with PosInf show ?thesis by (cases x) simp_all
  qed
qed

text \<open>
  A move of the loop is fine: it applies, and the search of the successor board agrees
  with its exact value for every window.
\<close>

definition child_ok ::
  "rules \<Rightarrow> (board \<Rightarrow> score \<Rightarrow> score \<Rightarrow> error + score) \<Rightarrow> (board \<Rightarrow> error + score)
     \<Rightarrow> board \<Rightarrow> int \<Rightarrow> move \<Rightarrow> bool" where
  "child_ok R child child_ex b p m =
     (\<exists>nb. apply_move R b m p = Inr nb
        \<and> (\<forall>alpha beta. alpha < beta \<longrightarrow>
              (\<exists>v x. child nb alpha beta = Inr v \<and> child_ex nb = Inr x \<and> agrees alpha beta v x)))"

lemma child_okD:
  assumes "child_ok R child child_ex b p m" "alpha < beta"
  obtains nb v x where "apply_move R b m p = Inr nb" "child nb alpha beta = Inr v"
    "child_ex nb = Inr x" "agrees alpha beta v x"
  using assms unfolding child_ok_def by blast

lemma child_ok_ex:
  assumes "child_ok R child child_ex b p m"
  obtains nb x where "apply_move R b m p = Inr nb" "child_ex nb = Inr x"
proof -
  have "NegInf < PosInf" by (simp add: less_score_def)
  from child_okD [OF assms this] that show thesis by blast
qed

lemma max_all_total:
  "\<forall>m \<in> set ms. child_ok R child child_ex b 1 m
     \<Longrightarrow> \<exists>x. max_all R child_ex b ms best = Inr x \<and> best \<le> x"
proof (induction ms arbitrary: best)
  case Nil
  show ?case by simp
next
  case (Cons m ms)
  from Cons.prems have "child_ok R child child_ex b 1 m" by simp
  then obtain nb y where s: "apply_move R b m 1 = Inr nb" "child_ex nb = Inr y"
    by (rule child_ok_ex)
  from Cons.prems have "\<forall>m \<in> set ms. child_ok R child child_ex b 1 m" by simp
  from Cons.IH [OF this, of "max best y"]
  obtain x where "max_all R child_ex b ms (max best y) = Inr x" "max best y \<le> x" by blast
  with s show ?case by auto
qed

lemma min_all_total:
  "\<forall>m \<in> set ms. child_ok R child child_ex b (- 1) m
     \<Longrightarrow> \<exists>x. min_all R child_ex b ms best = Inr x \<and> x \<le> best"
proof (induction ms arbitrary: best)
  case Nil
  show ?case by simp
next
  case (Cons m ms)
  from Cons.prems have "child_ok R child child_ex b (- 1) m" by simp
  then obtain nb y where s: "apply_move R b m (- 1) = Inr nb" "child_ex nb = Inr y"
    by (rule child_ok_ex)
  from Cons.prems have "\<forall>m \<in> set ms. child_ok R child child_ex b (- 1) m" by simp
  from Cons.IH [OF this, of "min best y"]
  obtain x where "min_all R child_ex b ms (min best y) = Inr x" "x \<le> min best y" by blast
  with s show ?case by auto
qed

lemma max_loop_agrees:
  assumes "\<forall>m \<in> set ms. child_ok R child child_ex b 1 m"
    and "max alpha me < beta"
    and "me \<le> alpha \<longrightarrow> mx \<le> me" and "alpha < me \<longrightarrow> mx = me"
  shows "\<exists>v x. max_loop R child b ms me (max alpha me) beta = Inr v
            \<and> max_all R child_ex b ms mx = Inr x \<and> agrees alpha beta v x"
  using assms
proof (induction ms arbitrary: me mx)
  case Nil
  then show ?case by (auto simp: agrees_def)
next
  case (Cons m ms)
  from Cons.prems(1) have ok: "child_ok R child child_ex b 1 m"
    and rest: "\<forall>m \<in> set ms. child_ok R child child_ex b 1 m" by simp_all
  from child_okD [OF ok Cons.prems(2)]
  obtain nb e y where s: "apply_move R b m 1 = Inr nb"
    "child nb (max alpha me) beta = Inr e" "child_ex nb = Inr y"
    and ag: "agrees (max alpha me) beta e y" by blast
  have assoc: "max (max alpha me) e = max alpha (max me e)" by (simp add: max.assoc)
  show ?case
  proof (cases "beta \<le> max (max alpha me) e")
    case True
    with Cons.prems(2) have be: "beta \<le> e" by (auto simp: max_def split: if_splits)
    with ag have ey: "e \<le> y" by (simp add: agrees_def)
    from Cons.prems(2) be have mee: "max me e = e" by (auto simp: max_def split: if_splits)
    from max_all_total [OF rest, of "max mx y"]
    obtain x where x: "max_all R child_ex b ms (max mx y) = Inr x" "max mx y \<le> x" by blast
    from x(2) ey have "e \<le> x" by (auto simp: max_def split: if_splits)
    with be Cons.prems(2) have "agrees alpha beta e x"
      by (auto simp: agrees_def max_def split: if_splits)
    with s x(1) True mee show ?thesis by (simp add: Let_def)
  next
    case False
    then have lt: "max alpha (max me e) < beta" unfolding assoc by (simp only: not_le)
    have p3: "max me e \<le> alpha \<longrightarrow> max mx y \<le> max me e"
      using ag Cons.prems(3,4) by (auto simp: agrees_def max_def split: if_splits)
    have p4: "alpha < max me e \<longrightarrow> max mx y = max me e"
      using ag Cons.prems(2,3,4) lt by (auto simp: agrees_def max_def split: if_splits)
    from Cons.IH [OF rest lt p3 p4]
    obtain v x where "max_loop R child b ms (max me e) (max alpha (max me e)) beta = Inr v"
      "max_all R child_ex b ms (max mx y) = Inr x" "agrees alpha beta v x" by blast
    with s False show ?thesis by (simp add: Let_def assoc)
  qed
qed


lemma agrees_refl: "agrees alpha beta v v"
  by (simp add: agrees_def)

lemma min_loop_agrees:
  assumes "\<forall>m \<in> set ms. child_ok R child child_ex b (- 1) m"
    and "alpha < min beta me"
    and "beta \<le> me \<longrightarrow> me \<le> mx" and "me < beta \<longrightarrow> mx = me"
  shows "\<exists>v x. min_loop R child b ms me alpha (min beta me) = Inr v
            \<and> min_all R child_ex b ms mx = Inr x \<and> agrees alpha beta v x"
  using assms
proof (induction ms arbitrary: me mx)
  case Nil
  then show ?case by (auto simp: agrees_def)
next
  case (Cons m ms)
  from Cons.prems(1) have ok: "child_ok R child child_ex b (- 1) m"
    and rest: "\<forall>m \<in> set ms. child_ok R child child_ex b (- 1) m" by simp_all
  from child_okD [OF ok Cons.prems(2)]
  obtain nb e y where s: "apply_move R b m (- 1) = Inr nb"
    "child nb alpha (min beta me) = Inr e" "child_ex nb = Inr y"
    and ag: "agrees alpha (min beta me) e y" by blast
  have assoc: "min (min beta me) e = min beta (min me e)" by (simp add: min.assoc)
  show ?case
  proof (cases "min (min beta me) e \<le> alpha")
    case True
    with Cons.prems(2) have be: "e \<le> alpha" by (auto simp: min_def split: if_splits)
    with ag have ey: "y \<le> e" by (simp add: agrees_def)
    from Cons.prems(2) be have mee: "min me e = e" by (auto simp: min_def split: if_splits)
    from min_all_total [OF rest, of "min mx y"]
    obtain x where x: "min_all R child_ex b ms (min mx y) = Inr x" "x \<le> min mx y" by blast
    from x(2) ey have "x \<le> e" by (auto simp: min_def split: if_splits)
    with be Cons.prems(2) have "agrees alpha beta e x"
      by (auto simp: agrees_def min_def split: if_splits)
    with s x(1) True mee show ?thesis by (simp add: Let_def)
  next
    case False
    then have lt: "alpha < min beta (min me e)" unfolding assoc by (simp only: not_le)
    have p3: "beta \<le> min me e \<longrightarrow> min me e \<le> min mx y"
      using ag Cons.prems(3,4) by (auto simp: agrees_def min_def split: if_splits)
    have p4: "min me e < beta \<longrightarrow> min mx y = min me e"
      using ag Cons.prems(2,3,4) lt by (auto simp: agrees_def min_def split: if_splits)
    from Cons.IH [OF rest lt p3 p4]
    obtain v x where "min_loop R child b ms (min me e) alpha (min beta (min me e)) = Inr v"
      "min_all R child_ex b ms (min mx y) = Inr x" "agrees alpha beta v x" by blast
    with s False show ?thesis by (simp add: Let_def assoc)
  qed
qed

lemma minimax_agrees:
  "alpha < beta \<Longrightarrow>
     \<exists>v x. minimax A d b alpha beta p = Inr v \<and> minimax_exhaustive A d b p = Inr x
           \<and> agrees alpha beta v x"
proof (induction d arbitrary: b alpha beta p)
  case 0
  obtain t w where tw: "is_terminal (agent_rules A) b p = (t, w)"
    by (cases "is_terminal (agent_rules A) b p")
  then show ?case by (cases t) (simp_all add: agrees_refl)
next
  case (Suc d)
  let ?R = "agent_rules A"
  obtain t w where tw: "is_terminal ?R b p = (t, w)"
    by (cases "is_terminal ?R b p")
  show ?case
  proof (cases t)
    case True
    with tw show ?thesis by (simp add: agrees_refl)
  next
    case nt: False
    show ?thesis
    proof (cases "get_legal_moves ?R b p = []")
      case True
      with tw nt show ?thesis by (simp add: agrees_refl)
    next
      case ne: False
      show ?thesis
      proof (cases "p = 1")
        case True
        have ok: "\<forall>m \<in> set (get_legal_moves ?R b p).
            child_ok ?R (\<lambda>nb a b'. minimax A d nb a b' (- 1))
              (\<lambda>nb. minimax_exhaustive A d nb (- 1)) b 1 m"
        proof
          fix m assume "m \<in> set (get_legal_moves ?R b p)"
          from legal_moves_apply [OF this, of 1]
          obtain nb where "apply_move ?R b m 1 = Inr nb" by blast
          then show "child_ok ?R (\<lambda>nb a b'. minimax A d nb a b' (- 1))
              (\<lambda>nb. minimax_exhaustive A d nb (- 1)) b 1 m"
            unfolding child_ok_def using Suc.IH by blast
        qed
        have w: "max alpha NegInf = alpha" by (rule max_absorb1) simp
        from Suc.prems have lt: "max alpha NegInf < beta" by (simp only: w)
        have "\<exists>v x. max_loop ?R (\<lambda>nb a b'. minimax A d nb a b' (- 1)) b
                  (get_legal_moves ?R b p) NegInf (max alpha NegInf) beta = Inr v
            \<and> max_all ?R (\<lambda>nb. minimax_exhaustive A d nb (- 1)) b
                  (get_legal_moves ?R b p) NegInf = Inr x
            \<and> agrees alpha beta v x"
          by (rule max_loop_agrees [OF ok lt]) (simp_all add: less_score_def)
        with tw nt ne True show ?thesis by (simp add: w Let_def)
      next
        case False
        have ok: "\<forall>m \<in> set (get_legal_moves ?R b p).
            child_ok ?R (\<lambda>nb a b'. minimax A d nb a b' 1)
              (\<lambda>nb. minimax_exhaustive A d nb 1) b (- 1) m"
        proof
          fix m assume "m \<in> set (get_legal_moves ?R b p)"
          from legal_moves_apply [OF this, of "- 1"]
          obtain nb where "apply_move ?R b m (- 1) = Inr nb" by blast
          then show "child_ok ?R (\<lambda>nb a b'. minimax A d nb a b' 1)
              (\<lambda>nb. minimax_exhaustive A d nb 1) b (- 1) m"
            unfolding child_ok_def using Suc.IH by blast
        qed
        have w: "min beta PosInf = beta" by (rule min_absorb1) simp
        from Suc.prems have lt: "alpha < min beta PosInf" by (simp only: w)
        have "\<exists>v x. min_loop ?R (\<lambda>nb a b'. minimax A d nb a b' 1) b
                  (get_legal_moves ?R b p) PosInf alpha (min beta PosInf) = Inr v
            \<and> min_all ?R (\<lambda>nb. minimax_exhaustive A d nb 1) b
                  (get_legal_moves ?R b p) PosInf = Inr x
            \<and> agrees alpha beta v x"
          by (rule min_loop_agrees [OF ok lt]) (simp_all add: less_score_def)
        with tw nt ne False show ?thesis by (simp add: w Let_def)
      qed
    qed
  qed
qed

lemma minimax_full_window:
  "minimax A d b NegInf PosInf p = minimax_exhaustive A d b p"
proof -
  have "NegInf < PosInf" by (simp add: less_score_def)
  from minimax_agrees [OF this, of A d b p]
  obtain v x where "minimax A d b NegInf PosInf p = Inr v" "minimax_exhaustive A d b p = Inr x"
    "agrees NegInf PosInf v x" by blast
  with agrees_full show ?thesis by simp
qed

lemma minimax_total: "\<exists>v. minimax A d b NegInf PosInf p = Inr v"
proof -
  have "NegInf < PosInf" by (simp add: less_score_def)
  from minimax_agrees [OF this, of A d b p] show ?thesis by blast
qed

text \<open>
  \<open>select_action\<close> over exhaustive minimax: the same selection, with the score of each
  candidate computed without pruning.
\<close>

fun select_loop_exhaustive ::
  "agent \<Rightarrow> board \<Rightarrow> int \<Rightarrow> action_dict list \<Rightarrow> score \<Rightarrow> action_dict
     \<Rightarrow> error + (score \<times> action_dict)" where
  "select_loop_exhaustive A b player [] best_score best_action = Inr (best_score, best_action)"
| "select_loop_exhaustive A b player (action_dict # rest) best_score best_action =
     (case apply_move (agent_rules A) b (dict_to_move action_dict) player of
        Inl e \<Rightarrow> Inl e
      | Inr next_board \<Rightarrow>
     (case minimax_exhaustive A (depth A - 1) next_board (player * - 1) of
        Inl e \<Rightarrow> Inl e
      | Inr score \<Rightarrow>
        if player = 1 then
          (if score > best_score then select_loop_exhaustive A b player rest score action_dict
           else select_loop_exhaustive A b player rest best_score best_action)
        else
          (if score < best_score then select_loop_exhaustive A b player rest score action_dict
           else select_loop_exhaustive A b player rest best_score best_action)))"

definition select_action_exhaustive ::
  "agent \<Rightarrow> board \<Rightarrow> action_dict list \<Rightarrow> int \<Rightarrow> error + action_dict option" where
  "select_action_exhaustive A b legal_actions player =
     (if legal_actions = [] then Inr None
      else if length legal_actions = 1 then Inr (Some (hd legal_actions))
      else
        (case select_loop_exhaustive A b player legal_actions
                (if player = 1 then NegInf else PosInf) (random_choice legal_actions) of
           Inl e \<Rightarrow> Inl e
         | Inr (best_score, best_action) \<Rightarrow> Inr (Some best_action)))"

lemma select_loop_exhaustive_eq:
  "select_loop A b player acts s a = select_loop_exhaustive A b player acts s a"
proof (induction acts arbitrary: s a)
  case Nil
  show ?case by simp
next
  case (Cons x acts)
  show ?case
    using Cons.IH by (auto simp: minimax_full_window split: sum.splits)
qed

text \<open>
  The score \<open>select_action\<close> computes for one candidate action: the move is applied and
  the successor board searched with the full window, the opponent to move.
\<close>

definition action_score :: "agent \<Rightarrow> board \<Rightarrow> int \<Rightarrow> action_dict \<Rightarrow> error + score" where
  "action_score A b player action_dict =
     (case apply_move (agent_rules A) b (dict_to_move action_dict) player of
        Inl e \<Rightarrow> Inl e
      | Inr next_board \<Rightarrow> minimax A (depth A - 1) next_board NegInf PosInf (player * - 1))"

text \<open>
  Two men each; of the four moves of player +1 only the last, (2,3) to (3,4), goes
  to a central cell.
\<close>

definition centre_choice_board :: board where
  "centre_choice_board = (\<lambda>_. 0)((2, 1) := 1, (2, 3) := 1, (5, 2) := - 1, (5, 4) := - 1)"

definition centre_choice_actions :: "action_dict list" where
  "centre_choice_actions =
     [to_dict (Move (2, 1) (3, 0) [] False), to_dict (Move (2, 1) (3, 2) [] False),
      to_dict (Move (2, 3) (3, 2) [] False), to_dict (Move (2, 3) (3, 4) [] False)]"

lemma centre_choice_legal:
  "map to_dict (get_legal_moves default_rules centre_choice_board 1) = centre_choice_actions"
  by code_simp

lemma centre_choice_scores:
  "map (action_score (HeuristicAgent default_rules 2) centre_choice_board 1) centre_choice_actions
     = [Inr (Fin (- 1)), Inr (Fin (- 1)), Inr (Fin (- 1)), Inr (Fin 0)]"
  by code_simp

lemma centre_choice_select:
  "select_action (HeuristicAgent default_rules 2) centre_choice_board centre_choice_actions 1
     = Inr (Some (to_dict (Move (2, 3) (3, 4) [] False)))"
  by code_simp


text \<open>
  C6. For an agent of depth at least 1, every board, player and list of actions,
  \<open>select_action\<close> (alpha-beta pruning) returns what the selection over exhaustive
  minimax of the same depth returns, and its loop ends with the same best score and
  best action, from any starting pair.
\<close>

theorem alpha_beta_equivalence:
  assumes "0 < depth A"
  shows "select_action A b legal_actions player
           = select_action_exhaustive A b legal_actions player
         \<and> select_loop A b player legal_actions s a
           = select_loop_exhaustive A b player legal_actions s a"
  by (simp add: select_action_def select_action_exhaustive_def select_loop_exhaustive_eq)



theorem alpha_beta_equivalence_witness:
  "0 < depth (HeuristicAgent default_rules 2)
   \<and> select_action (HeuristicAgent default_rules 2) centre_choice_board centre_choice_actions 1
       = Inr (Some (to_dict (Move (2, 3) (3, 4) [] False)))
   \<and> select_action_exhaustive (HeuristicAgent default_rules 2) centre_choice_board
         centre_choice_actions 1
       = Inr (Some (to_dict (Move (2, 3) (3, 4) [] False)))"
proof -
  let ?A = "HeuristicAgent default_rules 2"
  have d: "0 < depth ?A" by (simp add: HeuristicAgent_def)
  from alpha_beta_equivalence [where A = ?A and b = centre_choice_board
      and legal_actions = centre_choice_actions and player = 1, OF d, THEN conjunct1]
  have "select_action_exhaustive ?A centre_choice_board centre_choice_actions 1
          = select_action ?A centre_choice_board centre_choice_actions 1"
    by (rule sym)
  with centre_choice_select d show ?thesis by (simp only: simp_thms)
qed

section \<open>Deterministic choice: the first action of extreme score\<close>

lemma select_loop_step:
  "action_score A b player x = Inr v \<Longrightarrow>
     select_loop A b player (x # rest) bs ba =
       (if player = 1 then
          (if v > bs then select_loop A b player rest v x
           else select_loop A b player rest bs ba)
        else
          (if v < bs then select_loop A b player rest v x
           else select_loop A b player rest bs ba))"
  by (auto simp: action_score_def split: sum.splits)

lemma select_loop_max:
  assumes "\<forall>x \<in> set acts. action_score A b 1 x = Inr (\<sigma> x)"
  shows "((\<forall>x \<in> set acts. \<sigma> x \<le> bs) \<and> select_loop A b 1 acts bs ba = Inr (bs, ba))
       \<or> (\<exists>pre a post. acts = pre @ a # post
             \<and> select_loop A b 1 acts bs ba = Inr (\<sigma> a, a) \<and> bs < \<sigma> a
             \<and> (\<forall>x \<in> set pre. \<sigma> x < \<sigma> a) \<and> (\<forall>x \<in> set post. \<sigma> x \<le> \<sigma> a))"
  using assms
proof (induction acts arbitrary: bs ba)
  case Nil
  show ?case by simp
next
  case (Cons x acts)
  from Cons.prems have sx: "action_score A b 1 x = Inr (\<sigma> x)"
    and rest: "\<forall>x \<in> set acts. action_score A b 1 x = Inr (\<sigma> x)" by simp_all
  note step = select_loop_step [OF sx, of acts bs ba]
  show ?case
  proof (cases "bs < \<sigma> x")
    case True
    with step have st: "select_loop A b 1 (x # acts) bs ba = select_loop A b 1 acts (\<sigma> x) x"
      by simp
    from Cons.IH [OF rest, of "\<sigma> x" x] show ?thesis
    proof (elim disjE conjE exE)
      assume "\<forall>y \<in> set acts. \<sigma> y \<le> \<sigma> x" "select_loop A b 1 acts (\<sigma> x) x = Inr (\<sigma> x, x)"
      with st True have "x # acts = [] @ x # acts
             \<and> select_loop A b 1 (x # acts) bs ba = Inr (\<sigma> x, x) \<and> bs < \<sigma> x
             \<and> (\<forall>y \<in> set []. \<sigma> y < \<sigma> x) \<and> (\<forall>y \<in> set acts. \<sigma> y \<le> \<sigma> x)"
        by simp
      then show ?thesis by blast
    next
      fix pre a post
      assume "acts = pre @ a # post" "select_loop A b 1 acts (\<sigma> x) x = Inr (\<sigma> a, a)"
        "\<sigma> x < \<sigma> a" "\<forall>y \<in> set pre. \<sigma> y < \<sigma> a" "\<forall>y \<in> set post. \<sigma> y \<le> \<sigma> a"
      with st True have "x # acts = (x # pre) @ a # post
             \<and> select_loop A b 1 (x # acts) bs ba = Inr (\<sigma> a, a) \<and> bs < \<sigma> a
             \<and> (\<forall>y \<in> set (x # pre). \<sigma> y < \<sigma> a) \<and> (\<forall>y \<in> set post. \<sigma> y \<le> \<sigma> a)"
        by auto
      then show ?thesis by blast
    qed
  next
    case False
    with step have st: "select_loop A b 1 (x # acts) bs ba = select_loop A b 1 acts bs ba"
      by simp
    from False have le: "\<sigma> x \<le> bs" by simp
    from Cons.IH [OF rest, of bs ba] show ?thesis
    proof (elim disjE conjE exE)
      assume "\<forall>y \<in> set acts. \<sigma> y \<le> bs" "select_loop A b 1 acts bs ba = Inr (bs, ba)"
      with st le show ?thesis by simp
    next
      fix pre a post
      assume "acts = pre @ a # post" "select_loop A b 1 acts bs ba = Inr (\<sigma> a, a)"
        "bs < \<sigma> a" "\<forall>y \<in> set pre. \<sigma> y < \<sigma> a" "\<forall>y \<in> set post. \<sigma> y \<le> \<sigma> a"
      with st le have "x # acts = (x # pre) @ a # post
             \<and> select_loop A b 1 (x # acts) bs ba = Inr (\<sigma> a, a) \<and> bs < \<sigma> a
             \<and> (\<forall>y \<in> set (x # pre). \<sigma> y < \<sigma> a) \<and> (\<forall>y \<in> set post. \<sigma> y \<le> \<sigma> a)"
        by auto
      then show ?thesis by blast
    qed
  qed
qed


lemma select_loop_min:
  assumes "p \<noteq> 1" and "\<forall>x \<in> set acts. action_score A b p x = Inr (\<sigma> x)"
  shows "((\<forall>x \<in> set acts. bs \<le> \<sigma> x) \<and> select_loop A b p acts bs ba = Inr (bs, ba))
       \<or> (\<exists>pre a post. acts = pre @ a # post
             \<and> select_loop A b p acts bs ba = Inr (\<sigma> a, a) \<and> \<sigma> a < bs
             \<and> (\<forall>x \<in> set pre. \<sigma> a < \<sigma> x) \<and> (\<forall>x \<in> set post. \<sigma> a \<le> \<sigma> x))"
  using assms
proof (induction acts arbitrary: bs ba)
  case Nil
  show ?case by simp
next
  case (Cons x acts)
  from Cons.prems(2) have sx: "action_score A b p x = Inr (\<sigma> x)"
    and rest: "\<forall>x \<in> set acts. action_score A b p x = Inr (\<sigma> x)" by simp_all
  note step = select_loop_step [OF sx, of acts bs ba]
  show ?case
  proof (cases "\<sigma> x < bs")
    case True
    with step Cons.prems(1) have st: "select_loop A b p (x # acts) bs ba = select_loop A b p acts (\<sigma> x) x"
      by simp
    from Cons.IH [OF Cons.prems(1) rest, of "\<sigma> x" x] show ?thesis
    proof (elim disjE conjE exE)
      assume "\<forall>y \<in> set acts. \<sigma> x \<le> \<sigma> y" "select_loop A b p acts (\<sigma> x) x = Inr (\<sigma> x, x)"
      with st True have "x # acts = [] @ x # acts
             \<and> select_loop A b p (x # acts) bs ba = Inr (\<sigma> x, x) \<and> \<sigma> x < bs
             \<and> (\<forall>y \<in> set []. \<sigma> x < \<sigma> y) \<and> (\<forall>y \<in> set acts. \<sigma> x \<le> \<sigma> y)"
        by simp
      then show ?thesis by blast
    next
      fix pre a post
      assume "acts = pre @ a # post" "select_loop A b p acts (\<sigma> x) x = Inr (\<sigma> a, a)"
        "\<sigma> a < \<sigma> x" "\<forall>y \<in> set pre. \<sigma> a < \<sigma> y" "\<forall>y \<in> set post. \<sigma> a \<le> \<sigma> y"
      with st True have "x # acts = (x # pre) @ a # post
             \<and> select_loop A b p (x # acts) bs ba = Inr (\<sigma> a, a) \<and> \<sigma> a < bs
             \<and> (\<forall>y \<in> set (x # pre). \<sigma> a < \<sigma> y) \<and> (\<forall>y \<in> set post. \<sigma> a \<le> \<sigma> y)"
        by auto
      then show ?thesis by blast
    qed
  next
    case False
    with step Cons.prems(1) have st: "select_loop A b p (x # acts) bs ba = select_loop A b p acts bs ba"
      by simp
    from False have le: "bs \<le> \<sigma> x" by simp
    from Cons.IH [OF Cons.prems(1) rest, of bs ba] show ?thesis
    proof (elim disjE conjE exE)
      assume "\<forall>y \<in> set acts. bs \<le> \<sigma> y" "select_loop A b p acts bs ba = Inr (bs, ba)"
      with st le show ?thesis by simp
    next
      fix pre a post
      assume "acts = pre @ a # post" "select_loop A b p acts bs ba = Inr (\<sigma> a, a)"
        "\<sigma> a < bs" "\<forall>y \<in> set pre. \<sigma> a < \<sigma> y" "\<forall>y \<in> set post. \<sigma> a \<le> \<sigma> y"
      with st le have "x # acts = (x # pre) @ a # post
             \<and> select_loop A b p (x # acts) bs ba = Inr (\<sigma> a, a) \<and> \<sigma> a < bs
             \<and> (\<forall>y \<in> set (x # pre). \<sigma> a < \<sigma> y) \<and> (\<forall>y \<in> set post. \<sigma> a \<le> \<sigma> y)"
        by auto
      then show ?thesis by blast
    qed
  qed
qed


text \<open>
  C9. For an agent of depth at least 1, a list of two or more actions whose squares lie
  inside the board, and player +1 or -1, every action of the list has a score and
  \<open>select_action\<close> returns the action \<open>a\<close> of a split \<open>pre @ a # post\<close> of the list such
  that, for player +1, every action before \<open>a\<close> scores strictly less and every action
  after it at most as much (for player -1, strictly more and at least as much): the
  first action whose score is the extreme. The result is a function of the agent, the
  board, the list and the player.
\<close>

theorem select_action_first_extreme:
  assumes "0 < depth A" and "2 \<le> length legal_actions"
    and "player = 1 \<or> player = - 1"
    and "\<forall>x \<in> set legal_actions.
           in_array (agent_rules A) (d_from x) \<and> in_array (agent_rules A) (d_to x)
           \<and> (\<forall>q \<in> set (captures (dict_to_move x)). in_array (agent_rules A) q)"
  shows "\<exists>\<sigma> pre a post.
           (\<forall>x \<in> set legal_actions. action_score A b player x = Inr (\<sigma> x))
           \<and> legal_actions = pre @ a # post
           \<and> select_action A b legal_actions player = Inr (Some a)
           \<and> (player = 1 \<longrightarrow> (\<forall>x \<in> set pre. \<sigma> x < \<sigma> a) \<and> (\<forall>x \<in> set post. \<sigma> x \<le> \<sigma> a))
           \<and> (player = - 1 \<longrightarrow> (\<forall>x \<in> set pre. \<sigma> a < \<sigma> x) \<and> (\<forall>x \<in> set post. \<sigma> a \<le> \<sigma> x))"
proof -
  let ?R = "agent_rules A"
  have tot: "\<forall>x \<in> set legal_actions. \<exists>v. action_score A b player x = Inr v"
  proof
    fix x assume "x \<in> set legal_actions"
    with assms(4) have "in_array ?R (from_pos (dict_to_move x))"
      "in_array ?R (to_pos (dict_to_move x))"
      "\<forall>q \<in> set (captures (dict_to_move x)). in_array ?R q"
      by (simp_all add: dict_to_move_def Move_def)
    from apply_move_in [OF this, of b player]
    obtain nb where nb: "apply_move ?R b (dict_to_move x) player = Inr nb" by blast
    from minimax_total [of A "depth A - 1" nb "player * - 1"]
    obtain v where "minimax A (depth A - 1) nb NegInf PosInf (player * - 1) = Inr v" by blast
    with nb show "\<exists>v. action_score A b player x = Inr v"
      by (simp add: action_score_def)
  qed
  from bchoice [OF tot] obtain \<sigma> where
    \<sigma>: "\<forall>x \<in> set legal_actions. action_score A b player x = Inr (\<sigma> x)" by blast
  from assms(2) obtain a0 rest where la: "legal_actions = a0 # rest"
    by (cases legal_actions) auto
  from assms(2) have ne: "legal_actions \<noteq> []" "length legal_actions \<noteq> 1" by auto
  have hd: "random_choice legal_actions = a0" by (simp add: random_choice_def la)
  from assms(3) show ?thesis
  proof
    assume p: "player = 1"
    from \<sigma> p have s1: "\<forall>x \<in> set legal_actions. action_score A b 1 x = Inr (\<sigma> x)" by simp
    from select_loop_max [OF s1, of NegInf a0]
    have "\<exists>pre a post s. legal_actions = pre @ a # post
            \<and> select_loop A b 1 legal_actions NegInf a0 = Inr (s, a)
            \<and> (\<forall>x \<in> set pre. \<sigma> x < \<sigma> a) \<and> (\<forall>x \<in> set post. \<sigma> x \<le> \<sigma> a)"
    proof (elim disjE conjE exE)
      assume all: "\<forall>x \<in> set legal_actions. \<sigma> x \<le> NegInf"
        and r: "select_loop A b 1 legal_actions NegInf a0 = Inr (NegInf, a0)"
      have "\<forall>x \<in> set rest. \<sigma> x \<le> \<sigma> a0"
      proof
        fix x assume "x \<in> set rest"
        with all la have "\<sigma> x \<le> NegInf" by simp
        also have "NegInf \<le> \<sigma> a0" by simp
        finally show "\<sigma> x \<le> \<sigma> a0" .
      qed
      with r la have "legal_actions = [] @ a0 # rest
            \<and> select_loop A b 1 legal_actions NegInf a0 = Inr (NegInf, a0)
            \<and> (\<forall>x \<in> set []. \<sigma> x < \<sigma> a0) \<and> (\<forall>x \<in> set rest. \<sigma> x \<le> \<sigma> a0)"
        by simp
      then show ?thesis by blast
    next
      fix pre a post
      assume "legal_actions = pre @ a # post"
        "select_loop A b 1 legal_actions NegInf a0 = Inr (\<sigma> a, a)"
        "\<forall>x \<in> set pre. \<sigma> x < \<sigma> a" "\<forall>x \<in> set post. \<sigma> x \<le> \<sigma> a"
      then show ?thesis by blast
    qed
    then obtain pre a post s where r: "legal_actions = pre @ a # post"
      "select_loop A b 1 legal_actions NegInf a0 = Inr (s, a)"
      "\<forall>x \<in> set pre. \<sigma> x < \<sigma> a" "\<forall>x \<in> set post. \<sigma> x \<le> \<sigma> a" by blast
    have sa: "select_action A b legal_actions player = Inr (Some a)"
      unfolding select_action_def using ne p r(2) hd by simp
    have G: "(\<forall>x \<in> set legal_actions. action_score A b player x = Inr (\<sigma> x))
           \<and> legal_actions = pre @ a # post
           \<and> select_action A b legal_actions player = Inr (Some a)
           \<and> (player = 1 \<longrightarrow> (\<forall>x \<in> set pre. \<sigma> x < \<sigma> a) \<and> (\<forall>x \<in> set post. \<sigma> x \<le> \<sigma> a))
           \<and> (player = - 1 \<longrightarrow> (\<forall>x \<in> set pre. \<sigma> a < \<sigma> x) \<and> (\<forall>x \<in> set post. \<sigma> a \<le> \<sigma> x))"
      using \<sigma> r(1,3,4) sa p by simp
    show ?thesis
      by (rule exI [of _ \<sigma>], rule exI [of _ pre], rule exI [of _ a], rule exI [of _ post])
         (rule G)
  next
    assume p: "player = - 1"
    then have p1: "player \<noteq> 1" by simp
    from select_loop_min [OF p1 \<sigma>, of PosInf a0]
    have "\<exists>pre a post s. legal_actions = pre @ a # post
            \<and> select_loop A b player legal_actions PosInf a0 = Inr (s, a)
            \<and> (\<forall>x \<in> set pre. \<sigma> a < \<sigma> x) \<and> (\<forall>x \<in> set post. \<sigma> a \<le> \<sigma> x)"
    proof (elim disjE conjE exE)
      assume all: "\<forall>x \<in> set legal_actions. PosInf \<le> \<sigma> x"
        and r: "select_loop A b player legal_actions PosInf a0 = Inr (PosInf, a0)"
      have "\<forall>x \<in> set rest. \<sigma> a0 \<le> \<sigma> x"
      proof
        fix x assume "x \<in> set rest"
        have "\<sigma> a0 \<le> PosInf" by simp
        also from \<open>x \<in> set rest\<close> all la have "PosInf \<le> \<sigma> x" by simp
        finally show "\<sigma> a0 \<le> \<sigma> x" .
      qed
      with r la have "legal_actions = [] @ a0 # rest
            \<and> select_loop A b player legal_actions PosInf a0 = Inr (PosInf, a0)
            \<and> (\<forall>x \<in> set []. \<sigma> a0 < \<sigma> x) \<and> (\<forall>x \<in> set rest. \<sigma> a0 \<le> \<sigma> x)"
        by simp
      then show ?thesis by blast
    next
      fix pre a post
      assume "legal_actions = pre @ a # post"
        "select_loop A b player legal_actions PosInf a0 = Inr (\<sigma> a, a)"
        "\<forall>x \<in> set pre. \<sigma> a < \<sigma> x" "\<forall>x \<in> set post. \<sigma> a \<le> \<sigma> x"
      then show ?thesis by blast
    qed
    then obtain pre a post s where r: "legal_actions = pre @ a # post"
      "select_loop A b player legal_actions PosInf a0 = Inr (s, a)"
      "\<forall>x \<in> set pre. \<sigma> a < \<sigma> x" "\<forall>x \<in> set post. \<sigma> a \<le> \<sigma> x" by blast
    have sa: "select_action A b legal_actions player = Inr (Some a)"
      unfolding select_action_def using ne p1 r(2) hd by simp
    have G: "(\<forall>x \<in> set legal_actions. action_score A b player x = Inr (\<sigma> x))
           \<and> legal_actions = pre @ a # post
           \<and> select_action A b legal_actions player = Inr (Some a)
           \<and> (player = 1 \<longrightarrow> (\<forall>x \<in> set pre. \<sigma> x < \<sigma> a) \<and> (\<forall>x \<in> set post. \<sigma> x \<le> \<sigma> a))
           \<and> (player = - 1 \<longrightarrow> (\<forall>x \<in> set pre. \<sigma> a < \<sigma> x) \<and> (\<forall>x \<in> set post. \<sigma> a \<le> \<sigma> x))"
      using \<sigma> r(1,3,4) sa p1 by simp
    show ?thesis
      by (rule exI [of _ \<sigma>], rule exI [of _ pre], rule exI [of _ a], rule exI [of _ post])
         (rule G)
  qed
qed


theorem select_action_first_extreme_witness:
  "0 < depth (HeuristicAgent default_rules 2) \<and> 2 \<le> length centre_choice_actions
   \<and> (\<exists>a. a \<in> set centre_choice_actions
          \<and> select_action (HeuristicAgent default_rules 2) centre_choice_board
               centre_choice_actions 1 = Inr (Some a))"
proof -
  let ?A = "HeuristicAgent default_rules 2"
  have h1: "0 < depth ?A" by (simp add: HeuristicAgent_def)
  have h2: "2 \<le> length centre_choice_actions" by (simp add: centre_choice_actions_def)
  have h3: "(1::int) = 1 \<or> (1::int) = - 1" by simp
  have h4: "\<forall>x \<in> set centre_choice_actions.
           in_array (agent_rules ?A) (d_from x) \<and> in_array (agent_rules ?A) (d_to x)
           \<and> (\<forall>q \<in> set (captures (dict_to_move x)). in_array (agent_rules ?A) q)"
    by (simp add: centre_choice_actions_def to_dict_def dict_to_move_def Move_def in_array_def
          HeuristicAgent_def default_rules_def)
  from select_action_first_extreme [OF h1 h2 h3 h4, of centre_choice_board]
  obtain pre a post where s: "centre_choice_actions = pre @ a # post"
    and r: "select_action ?A centre_choice_board centre_choice_actions 1 = Inr (Some a)"
    by (elim exE conjE)
  have "a \<in> set (pre @ a # post)" by simp
  then have "a \<in> set centre_choice_actions" by (simp only: s)
  with r h1 h2 show ?thesis by blast
qed

end
